theory Spec2Isabelle
  imports Complex_Main "HOL-Library.Word" "HOL-Library.Log_Nat"
begin

section \<open>Numbers\<close>

text \<open>
  Every arithmetic value of the TypeScript source is a JavaScript \<^verbatim>\<open>number\<close>, an IEEE 754
  binary64 value. A finite binary64 value is a real number, and each arithmetic operator
  returns the exact result rounded to the nearest representable value, ties to the even
  significand. \<open>fl p emin\<close> is that rounding for a format with \<open>p\<close> significand bits and
  least normal exponent \<open>emin\<close>: the quantum of a value \<open>q\<close> with \<open>2 ^ e \<le> |q| < 2 ^ (e + 1)\<close>
  is \<open>2 ^ (max e emin - p + 1)\<close>, which covers the subnormal range. Infinities and NaN are
  not represented: the per-cell formula divides by \<open>width\<close> only inside the column loop,
  where \<open>width > 0\<close>, and the loop guard keeps the iterates below \<open>16\<close> in magnitude. The
  sign of zero is not represented either; no operation of the program observes it.
\<close>

definition ilog2 :: "real \<Rightarrow> int" where
  "ilog2 q = (if 1 \<le> \<bar>q\<bar> then bitlen \<lfloor>\<bar>q\<bar>\<rfloor> - 1 else - bitlen (\<lceil>1 / \<bar>q\<bar>\<rceil> - 1))"

definition round_ties_even :: "real \<Rightarrow> int" where
  "round_ties_even q =
     (let f = \<lfloor>q\<rfloor>; d = q - of_int f
      in if d < 1 / 2 then f else if 1 / 2 < d then f + 1 else if even f then f else f + 1)"

definition fl :: "nat \<Rightarrow> int \<Rightarrow> real \<Rightarrow> real" where
  "fl p emin q =
     (if q = 0 then 0
      else (let u = 2 powi (max (ilog2 q) emin - int p + 1)
            in of_int (round_ties_even (q / u)) * u))"

definition f64 :: "real \<Rightarrow> real" where
  "f64 = fl 53 (- 1022)"

definition f32 :: "real \<Rightarrow> real" where
  "f32 = fl 24 (- 126)"

definition js_add :: "real \<Rightarrow> real \<Rightarrow> real" where
  "js_add a b = f64 (a + b)"

definition js_sub :: "real \<Rightarrow> real \<Rightarrow> real" where
  "js_sub a b = f64 (a - b)"

definition js_mul :: "real \<Rightarrow> real \<Rightarrow> real" where
  "js_mul a b = f64 (a * b)"

definition js_div :: "real \<Rightarrow> real \<Rightarrow> real" where
  "js_div a b = f64 (a / b)"

type_synonym u8 = "8 word"
type_synonym u32 = "32 word"

text \<open>Storing a number into a \<^verbatim>\<open>Uint32Array\<close> truncates it and reduces it modulo \<open>2 ^ 32\<close>.\<close>

definition ToUint32 :: "real \<Rightarrow> u32" where
  "ToUint32 v = word_of_int (if 0 \<le> v then \<lfloor>v\<rfloor> else \<lceil>v\<rceil>)"

section \<open>The CPU implementation\<close>

datatype error = RangeError | TypeError | OperationError | Error

text \<open>
  The \<^verbatim>\<open>while\<close> loop of \<^verbatim>\<open>calculateMandelbrotCPU\<close>. The counter \<open>i\<close> is a number like
  any other, and \<^verbatim>\<open>i++\<close> is a rounded addition, so the loop is not bounded a priori:
  not returning is the value \<open>None\<close>.
\<close>

partial_function (option) mandel_while ::
  "real \<Rightarrow> real \<Rightarrow> real \<Rightarrow> real \<Rightarrow> real \<Rightarrow> real \<Rightarrow> real option" where
  "mandel_while cx cy max_iter zx zy i =
     (if i < max_iter \<and> js_add (js_mul zx zx) (js_mul zy zy) < 4 then
        mandel_while cx cy max_iter
          (js_add (js_sub (js_mul zx zx) (js_mul zy zy)) cx)
          (js_add (js_mul (js_mul 2 zx) zy) cy)
          (js_add i 1)
      else Some i)"

text \<open>
  The counters \<open>x\<close> and \<open>y\<close> of the two \<^verbatim>\<open>for\<close> loops and the index \<open>y * width + x\<close>
  are numbers as well. They hold integers, so they are kept as integers here, and the
  increment and the index arithmetic are the rounded operations: \<^verbatim>\<open>x++\<close> leaves \<open>2 ^ 53\<close>
  unchanged. An assignment at a negative index or past the end of the array is ignored.
\<close>

definition js_inc :: "int \<Rightarrow> int" where
  "js_inc n = \<lfloor>js_add (of_int n) 1\<rfloor>"

definition array_index :: "int \<Rightarrow> int \<Rightarrow> int \<Rightarrow> int" where
  "array_index y width x = \<lfloor>js_add (js_mul (of_int y) (of_int width)) (of_int x)\<rfloor>"

definition array_set :: "u32 list \<Rightarrow> int \<Rightarrow> real \<Rightarrow> u32 list" where
  "array_set data k v = (if 0 \<le> k then data[nat k := ToUint32 v] else data)"

partial_function (option) for_x ::
  "int \<Rightarrow> int \<Rightarrow> int \<Rightarrow> int \<Rightarrow> int \<Rightarrow> u32 list \<Rightarrow> u32 list option" where
  "for_x width height max_iter y x data =
     (if x < width then
        (case mandel_while
                (js_mul (js_sub (js_div (of_int x) (of_int width)) (3 / 4)) (5 / 2))
                (js_mul (js_sub (js_div (of_int y) (of_int height)) (1 / 2)) 2)
                (of_int max_iter) 0 0 0 of
           None \<Rightarrow> None
         | Some i \<Rightarrow>
             for_x width height max_iter y (js_inc x)
               (array_set data (array_index y width x) i))
      else Some data)"

partial_function (option) for_y ::
  "int \<Rightarrow> int \<Rightarrow> int \<Rightarrow> int \<Rightarrow> u32 list \<Rightarrow> u32 list option" where
  "for_y width height max_iter y data =
     (if y < height then
        (case for_x width height max_iter y 0 data of
           None \<Rightarrow> None
         | Some data' \<Rightarrow> for_y width height max_iter (js_inc y) data')
      else Some data)"

text \<open>
  \<^verbatim>\<open>new Uint32Array(width * height)\<close> raises \<^verbatim>\<open>RangeError\<close> when the length is
  negative, when it exceeds \<open>2 ^ 53 - 1\<close>, and when the engine cannot allocate an array
  that long; \<open>max_length\<close> is the longest array the engine allocates. Otherwise the array
  starts filled with zeros. The result is \<open>None\<close> when the function does not return,
  \<open>Some (Inl e)\<close> when it throws \<open>e\<close>, and \<open>Some (Inr data)\<close> when it returns \<open>data\<close>.
\<close>

definition calculateMandelbrotCPU ::
  "int \<Rightarrow> int \<Rightarrow> int \<Rightarrow> int \<Rightarrow> (error + u32 list) option" where
  "calculateMandelbrotCPU max_length width height max_iter =
     (if width * height < 0 \<or> 2 ^ 53 - 1 < width * height \<or> max_length < width * height
      then Some (Inl RangeError)
      else map_option Inr
             (for_y width height max_iter 0 (replicate (nat (width * height)) 0)))"

section \<open>Drawing\<close>

definition MAX_ITERATIONS :: int where
  "MAX_ITERATIONS = 255"

text \<open>The \<^verbatim>\<open>%\<close> operator: the remainder has the sign of the dividend and is exact.\<close>

definition js_rem :: "real \<Rightarrow> real \<Rightarrow> real" where
  "js_rem a b = a - b * of_int (if 0 \<le> a / b then \<lfloor>a / b\<rfloor> else \<lceil>a / b\<rceil>)"

text \<open>Storing a number into the \<^verbatim>\<open>Uint8ClampedArray\<close> of an \<^verbatim>\<open>ImageData\<close>.\<close>

definition ToUint8Clamp :: "real \<Rightarrow> u8" where
  "ToUint8Clamp v = word_of_int (round_ties_even (min (max v 0) 255))"

text \<open>
  The body of the loop of \<^verbatim>\<open>drawMandelbrot\<close>: the three numbers assigned to the red,
  green and blue bytes of the pixel for the array entry \<open>iter\<close>.
\<close>

definition pixel_channels :: "real \<Rightarrow> real \<times> real \<times> real" where
  "pixel_channels iter =
     (if of_int MAX_ITERATIONS \<le> iter then (0, 0, 0)
      else
        (let hue = js_div (js_mul 360 iter) (of_int MAX_ITERATIONS);
             saturation = 1;
             lightness = 1 / 2;
             c = js_mul (js_sub 1 \<bar>js_sub (js_mul 2 lightness) 1\<bar>) saturation;
             x = js_mul c (js_sub 1 \<bar>js_sub (js_rem (js_div hue 60) 2) 1\<bar>);
             m = js_sub lightness (js_div c 2);
             (r, g, b) =
               (if hue < 60 then (c, x, 0)
                else if hue < 120 then (x, c, 0)
                else if hue < 180 then (0, c, x)
                else if hue < 240 then (0, x, c)
                else if hue < 300 then (x, 0, c)
                else (c, 0, x))
         in (js_mul (js_add r m) 255, js_mul (js_add g m) 255, js_mul (js_add b m) 255)))"

definition pixel_bytes :: "u32 \<Rightarrow> u8 list" where
  "pixel_bytes iter =
     (case pixel_channels (real (unat iter)) of
        (r, g, b) \<Rightarrow> [ToUint8Clamp r, ToUint8Clamp g, ToUint8Clamp b, 255])"

text \<open>
  \<^verbatim>\<open>drawMandelbrot\<close> fills an image of \<open>width * height\<close> transparent black pixels, four
  bytes each; a write past the end of the image is ignored. The result is the byte
  array handed to the canvas.
\<close>

fun draw_loop :: "u32 list \<Rightarrow> nat \<Rightarrow> u8 list \<Rightarrow> u8 list" where
  "draw_loop [] i imageData = imageData"
| "draw_loop (iter # rest) i imageData =
     draw_loop rest (i + 1)
       (fold (\<lambda>(k, v) img. if i * 4 + k < length img then img[i * 4 + k := v] else img)
          (zip [0, 1, 2, 3] (pixel_bytes iter)) imageData)"

definition drawMandelbrot :: "nat \<Rightarrow> nat \<Rightarrow> u32 list \<Rightarrow> u8 list" where
  "drawMandelbrot width height data = draw_loop data 0 (replicate (width * height * 4) 0)"

section \<open>The compute shader\<close>

text \<open>
  WGSL leaves the accuracy of \<^verbatim>\<open>f32\<close> arithmetic to the implementation (division need
  not be correctly rounded, products and sums may be fused), so the shader is modelled
  over an arbitrary implementation of the operations. \<open>ieee_f32\<close> is the correctly rounded
  one. A finite \<^verbatim>\<open>f32\<close> value is a real number.
\<close>

record gpu_float =
  f32_of_u32 :: "u32 \<Rightarrow> real"
  f32_add :: "real \<Rightarrow> real \<Rightarrow> real"
  f32_sub :: "real \<Rightarrow> real \<Rightarrow> real"
  f32_mul :: "real \<Rightarrow> real \<Rightarrow> real"
  f32_div :: "real \<Rightarrow> real \<Rightarrow> real"

definition ieee_f32 :: gpu_float where
  "ieee_f32 =
     \<lparr>f32_of_u32 = (\<lambda>n. f32 (real (unat n))),
      f32_add = (\<lambda>a b. f32 (a + b)),
      f32_sub = (\<lambda>a b. f32 (a - b)),
      f32_mul = (\<lambda>a b. f32 (a * b)),
      f32_div = (\<lambda>a b. f32 (a / b))\<rparr>"

text \<open>The value conversion \<^verbatim>\<open>u32(e)\<close> of an \<^verbatim>\<open>f32\<close>: truncation, clamped to the range.\<close>

definition u32_of_f32 :: "real \<Rightarrow> u32" where
  "u32_of_f32 v =
     (if v \<le> 0 then 0 else if 2 ^ 32 - 1 \<le> v then - 1 else word_of_int \<lfloor>v\<rfloor>)"

function kernel_while ::
  "gpu_float \<Rightarrow> real \<Rightarrow> real \<Rightarrow> u32 \<Rightarrow> real \<Rightarrow> real \<Rightarrow> u32 \<Rightarrow> u32" where
  "kernel_while A cx cy cap zx zy i =
     (if i < cap \<and> f32_add A (f32_mul A zx zx) (f32_mul A zy zy) < 4 then
        kernel_while A cx cy cap
          (f32_add A (f32_sub A (f32_mul A zx zx) (f32_mul A zy zy)) cx)
          (f32_add A (f32_mul A (f32_mul A 2 zx) zy) cy)
          (i + 1)
      else i)"
  by pat_completeness auto
termination
proof (relation "measure (\<lambda>(A, cx, cy, cap, zx, zy, i). unat cap - unat i)")
  show "wf (measure (\<lambda>(A, cx, cy, cap, zx, zy, i). unat cap - unat i))"
    by simp
next
  fix A :: gpu_float and cx cy zx zy :: real and cap i :: u32
  assume "i < cap \<and> f32_add A (f32_mul A zx zx) (f32_mul A zy zy) < 4"
  then have lt: "i < cap"
    by simp
  then have "unat cap - unat (i + 1) < unat cap - unat i"
    by unat_arith
  then show
    "((A, cx, cy, cap,
       f32_add A (f32_sub A (f32_mul A zx zx) (f32_mul A zy zy)) cx,
       f32_add A (f32_mul A (f32_mul A 2 zx) zy) cy, i + 1),
      (A, cx, cy, cap, zx, zy, i))
     \<in> measure (\<lambda>(A, cx, cy, cap, zx, zy, i). unat cap - unat i)"
    by simp
qed

record Params =
  width :: real
  height :: real
  max_iter :: real

text \<open>
  One invocation of the entry point \<^verbatim>\<open>main\<close>, for the invocation id \<open>(gx, gy)\<close>, on the
  storage buffer \<open>output\<close>. A write outside the buffer is discarded.
\<close>

definition kernel_main :: "gpu_float \<Rightarrow> Params \<Rightarrow> u32 \<times> u32 \<Rightarrow> u32 list \<Rightarrow> u32 list" where
  "kernel_main A params global_id output =
     (case global_id of (gx, gy) \<Rightarrow>
        if u32_of_f32 (width params) \<le> gx \<or> u32_of_f32 (height params) \<le> gy then output
        else
          (let cx = f32_mul A (f32_sub A (f32_div A (f32_of_u32 A gx) (width params)) (3 / 4)) (5 / 2);
               cy = f32_mul A (f32_sub A (f32_div A (f32_of_u32 A gy) (height params)) (1 / 2)) 2;
               i = kernel_while A cx cy (u32_of_f32 (max_iter params)) 0 0 0;
               index = gy * u32_of_f32 (width params) + gx
           in if unat index < length output then output[unat index := i] else output))"

text \<open>
  \<^verbatim>\<open>dispatchWorkgroups(nx, ny)\<close> with workgroups of \<open>8 \<times> 8\<close> invocations runs \<^verbatim>\<open>main\<close> once
  for every id in \<open>[0, 8 nx) \<times> [0, 8 ny)\<close>. The invocations are independent; the model runs
  them row by row.
\<close>

definition dispatchWorkgroups :: "gpu_float \<Rightarrow> Params \<Rightarrow> nat \<Rightarrow> nat \<Rightarrow> u32 list \<Rightarrow> u32 list" where
  "dispatchWorkgroups A params nx ny output =
     fold (\<lambda>gy out. fold (\<lambda>gx. kernel_main A params (of_nat gx, of_nat gy)) [0..<8 * nx] out)
       [0..<8 * ny] output"

text \<open>
  The value that the invocation \<open>(gx, gy)\<close> stores when it passes the bounds check.
\<close>

definition kernel_cell :: "gpu_float \<Rightarrow> Params \<Rightarrow> u32 \<Rightarrow> u32 \<Rightarrow> u32" where
  "kernel_cell A params gx gy =
     kernel_while A
       (f32_mul A (f32_sub A (f32_div A (f32_of_u32 A gx) (width params)) (3 / 4)) (5 / 2))
       (f32_mul A (f32_sub A (f32_div A (f32_of_u32 A gy) (height params)) (1 / 2)) 2)
       (u32_of_f32 (max_iter params)) 0 0 0"

text \<open>
  The GPU branch of \<^verbatim>\<open>handleRun\<close> runs on what the browser provides:
  \<^item> \<open>unavailable\<close> is the error the branch fails with before it has a device: \<^verbatim>\<open>Error\<close>
    when there is no WebGPU or no adapter, what \<^verbatim>\<open>requestDevice\<close> rejects with otherwise;
    \<open>None\<close> when a device is obtained;
  \<^item> \<open>arithmetic\<close> is the floating-point arithmetic of the device;
  \<^item> \<open>accepts size nx ny\<close> tells whether the device validates the buffers of \<open>size\<close> bytes
    and the dispatch of \<open>nx \<times> ny\<close> workgroups (its limits on buffer and binding sizes and
    on workgroups per dimension). A validation error is not thrown by the call that
    causes it; \<open>rejected\<close> is what the branch yields then, from \<^verbatim>\<open>mapAsync\<close> on.
\<close>

record webgpu =
  unavailable :: "error option"
  arithmetic :: gpu_float
  accepts :: "int \<Rightarrow> int \<Rightarrow> int \<Rightarrow> bool"
  rejected :: "int \<Rightarrow> int \<Rightarrow> error + u32 list"

text \<open>
  \<^verbatim>\<open>createBuffer\<close> takes its size as an \<^verbatim>\<open>[EnforceRange] unsigned long long\<close> and
  \<^verbatim>\<open>dispatchWorkgroups\<close> its counts as \<^verbatim>\<open>[EnforceRange] unsigned long\<close>: a number outside
  \<open>[0, 2 ^ 53 - 1]\<close>, respectively \<open>[0, 2 ^ 32 - 1]\<close>, throws \<^verbatim>\<open>TypeError\<close>. Otherwise the
  parameters are stored through a \<^verbatim>\<open>Float32Array\<close>, the output buffer of \<open>w * h\<close> words
  starts zeroed, \<open>\<lceil>w / 8\<rceil> \<times> \<lceil>h / 8\<rceil>\<close> workgroups are dispatched, and the buffer is read
  back. \<^verbatim>\<open>handleRun\<close> passes the resolution for both sides and \<open>MAX_ITERATIONS\<close> for the
  cap; it catches every error, logs it and draws nothing.
\<close>

definition gpu_compute :: "webgpu \<Rightarrow> int \<Rightarrow> int \<Rightarrow> int \<Rightarrow> error + u32 list" where
  "gpu_compute G w h m =
     (case unavailable G of
        Some e \<Rightarrow> Inl e
      | None \<Rightarrow>
          (let outputBufferSize = w * h * 4;
               nx = \<lceil>of_int w / (8 :: real)\<rceil>;
               ny = \<lceil>of_int h / (8 :: real)\<rceil>
           in if outputBufferSize < 0 \<or> 2 ^ 53 - 1 < outputBufferSize then Inl TypeError
              else if nx < 0 \<or> 2 ^ 32 - 1 < nx \<or> ny < 0 \<or> 2 ^ 32 - 1 < ny then Inl TypeError
              else if \<not> accepts G outputBufferSize nx ny then rejected G w h
              else Inr (dispatchWorkgroups (arithmetic G)
                     \<lparr>width = f32 (of_int w), height = f32 (of_int h), max_iter = f32 (of_int m)\<rparr>
                     (nat nx) (nat ny) (replicate (nat (w * h)) 0))))"


text \<open>
  A device with correctly rounded arithmetic and the default limits of WebGPU: bindings
  of at most \<open>2 ^ 27\<close> bytes and at most \<open>65535\<close> workgroups per dimension.
\<close>

definition default_device :: webgpu where
  "default_device =
     \<lparr>unavailable = None,
      arithmetic = ieee_f32,
      accepts = (\<lambda>size nx ny. size \<le> 2 ^ 27 \<and> nx \<le> 65535 \<and> ny \<le> 65535),
      rejected = (\<lambda>w h. Inl OperationError)\<rparr>"



section \<open>The escape count, as the specification words it\<close>

text \<open>
  The sample point of cell \<open>(x, y)\<close> of a \<open>w \<times> h\<close> grid, the recurrence
  \<open>z\<^sub>0 = 0\<close>, \<open>z\<^sub>n\<^sub>+\<^sub>1 = z\<^sub>n\<^sup>2 + c\<close> in the operation order of the specification's
  pseudocode, and the escape count: the first \<open>i\<close> with \<open>i = maxIter\<close> or
  \<open>zx * zx + zy * zy \<ge> 4\<close>. The arithmetic is that of the program.
\<close>

definition sample_point :: "int \<Rightarrow> int \<Rightarrow> int \<Rightarrow> int \<Rightarrow> real \<times> real" where
  "sample_point x y w h =
     (js_mul (js_sub (js_div (of_int x) (of_int w)) (3 / 4)) (5 / 2),
      js_mul (js_sub (js_div (of_int y) (of_int h)) (1 / 2)) 2)"

fun orbit :: "real \<times> real \<Rightarrow> nat \<Rightarrow> real \<times> real" where
  "orbit c 0 = (0, 0)"
| "orbit c (Suc n) =
     (case (orbit c n, c) of
        ((zx, zy), (cx, cy)) \<Rightarrow>
          (js_add (js_sub (js_mul zx zx) (js_mul zy zy)) cx,
           js_add (js_mul (js_mul 2 zx) zy) cy))"

definition inside :: "real \<times> real \<Rightarrow> bool" where
  "inside z = (case z of (zx, zy) \<Rightarrow> js_add (js_mul zx zx) (js_mul zy zy) < 4)"

definition escape_count :: "real \<times> real \<Rightarrow> nat \<Rightarrow> nat" where
  "escape_count c maxIter =
     (case find (\<lambda>i. \<not> inside (orbit c i)) [0..<maxIter] of
        None \<Rightarrow> maxIter
      | Some i \<Rightarrow> i)"

text \<open>
  The escape count of a cell stored as an unsigned 32-bit integer, and the row-major
  array of these.
\<close>

definition cell_word :: "int \<Rightarrow> int \<Rightarrow> int \<Rightarrow> int \<Rightarrow> int \<Rightarrow> u32" where
  "cell_word w h maxIter x y = of_nat (escape_count (sample_point x y w h) (nat maxIter))"

definition escape_grid :: "int \<Rightarrow> int \<Rightarrow> int \<Rightarrow> u32 list" where
  "escape_grid w h maxIter =
     map (\<lambda>k. cell_word w h maxIter (int k mod w) (int k div w)) [0..<nat (w * h)]"

text \<open>
  The colour of an escape count: black at the cap; below it the hue
  \<open>360 * escapeCount / maxIter\<close> at saturation \<open>1\<close> and lightness \<open>1 / 2\<close>, converted
  by the six-sector formula, in exact arithmetic, each channel scaled to \<open>[0, 255]\<close>.
\<close>

definition hsl_to_rgb :: "real \<Rightarrow> real \<Rightarrow> real \<Rightarrow> real \<times> real \<times> real" where
  "hsl_to_rgb h s l =
     (let c = (1 - \<bar>2 * l - 1\<bar>) * s;
          x = c * (1 - \<bar>(h / 60 - 2 * of_int \<lfloor>h / 60 / 2\<rfloor>) - 1\<bar>);
          m = l - c / 2;
          (r, g, b) =
            (if h < 60 then (c, x, 0)
             else if h < 120 then (x, c, 0)
             else if h < 180 then (0, c, x)
             else if h < 240 then (0, x, c)
             else if h < 300 then (x, 0, c)
             else (c, 0, x))
      in ((r + m) * 255, (g + m) * 255, (b + m) * 255))"

definition colorize :: "nat \<Rightarrow> nat \<Rightarrow> real \<times> real \<times> real" where
  "colorize escapeCount maxIter =
     (if maxIter \<le> escapeCount then (0, 0, 0)
      else hsl_to_rgb (360 * real escapeCount / real maxIter) 1 (1 / 2))"

section \<open>Rounding\<close>

declare kernel_while.simps [simp del]

lemma ilog2_lower: "q \<noteq> 0 \<Longrightarrow> 2 powi (ilog2 q) \<le> \<bar>q\<bar>"
  and ilog2_upper: "q \<noteq> 0 \<Longrightarrow> \<bar>q\<bar> < 2 powi (ilog2 q + 1)"
proof -
  assume q: "q \<noteq> 0"
  have "2 powi (ilog2 q) \<le> \<bar>q\<bar> \<and> \<bar>q\<bar> < 2 powi (ilog2 q + 1)"
  proof (cases "1 \<le> \<bar>q\<bar>")
    case True
    define n where "n = \<lfloor>\<bar>q\<bar>\<rfloor>"
    have n1: "1 \<le> n"
      using True by (simp add: n_def le_floor_iff)
    have e: "ilog2 q = bitlen n - 1"
      using True by (simp add: ilog2_def n_def)
    have bl: "1 \<le> bitlen n"
      using n1 by (simp add: bitlen_alt_def)
    from bitlen_bounds [of n] n1
    have b1: "2 ^ nat (bitlen n - 1) \<le> n" and b2: "n < 2 ^ nat (bitlen n)"
      by auto
    have p1: "(2::real) powi (bitlen n - 1) = of_int (2 ^ nat (bitlen n - 1))"
      using bl by (simp add: power_int_def)
    have p2: "(2::real) powi (bitlen n - 1 + 1) = of_int (2 ^ nat (bitlen n))"
      using bl by (simp add: power_int_def)
    have "real_of_int (2 ^ nat (bitlen n - 1)) \<le> of_int n"
      using b1 by (simp only: of_int_le_iff)
    also have "of_int n \<le> \<bar>q\<bar>"
      by (simp add: n_def)
    finally have lo: "2 powi (bitlen n - 1) \<le> \<bar>q\<bar>"
      by (simp only: p1)
    have "\<bar>q\<bar> < of_int (n + 1)"
      by (simp add: n_def)
    also have "real_of_int (n + 1) \<le> of_int (2 ^ nat (bitlen n))"
      using b2 by (simp only: of_int_le_iff)
    finally have hi: "\<bar>q\<bar> < 2 powi (bitlen n - 1 + 1)"
      by (simp only: p2)
    from lo hi show ?thesis
      by (simp only: e)
  next
    case False
    define r where "r = 1 / \<bar>q\<bar>"
    define c where "c = \<lceil>r\<rceil>"
    define k where "k = bitlen (c - 1)"
    have qpos: "0 < \<bar>q\<bar>"
      using q by simp
    have r1: "1 < r"
      using False qpos by (simp add: r_def)
    have c2: "2 \<le> c"
      using r1 by (simp add: c_def)
    have e: "ilog2 q = - k"
      using False by (simp add: ilog2_def k_def c_def r_def)
    have k1: "1 \<le> k"
      using c2 by (simp add: k_def bitlen_alt_def)
    from bitlen_bounds [of "c - 1"] c2
    have b1: "2 ^ nat (k - 1) \<le> c - 1" and b2: "c - 1 < 2 ^ nat k"
      by (auto simp: k_def)
    have "r \<le> of_int c"
      by (simp add: c_def)
    also have "real_of_int c \<le> of_int (2 ^ nat k)"
      using b2 by (simp only: of_int_le_iff)
    finally have rk: "r \<le> 2 ^ nat k"
      by simp
    have "real_of_int (2 ^ nat (k - 1)) \<le> of_int (c - 1)"
      using b1 by (simp only: of_int_le_iff)
    also have "real_of_int (c - 1) < r"
      by (simp add: c_def) linarith
    finally have rk': "2 ^ nat (k - 1) < r"
      by simp
    have q_r: "\<bar>q\<bar> = 1 / r"
      using qpos by (simp add: r_def)
    have p1: "(2::real) powi (- k) = 1 / 2 ^ nat k"
      using k1 by (simp add: power_int_def field_simps)
    have p2: "(2::real) powi (- k + 1) = 1 / 2 ^ nat (k - 1)"
      using k1 by (simp add: power_int_def field_simps nat_diff_distrib)
    have lo: "2 powi (- k) \<le> \<bar>q\<bar>"
      unfolding p1 q_r using rk r1 by (simp add: field_simps)
    have hi: "\<bar>q\<bar> < 2 powi (- k + 1)"
      unfolding p2 q_r using rk' r1 by (simp add: field_simps)
    from lo hi show ?thesis
      by (simp only: e)
  qed
  then show "2 powi (ilog2 q) \<le> \<bar>q\<bar>" and "\<bar>q\<bar> < 2 powi (ilog2 q + 1)"
    by simp_all
qed

lemma round_ties_even_of_int: "round_ties_even (of_int k) = k"
  by (simp add: round_ties_even_def)

lemma pow2_less_cancel: "(2::real) powi a < 2 powi b \<Longrightarrow> a < b"
  using power_int_increasing [of b a "2::real"] by (cases "a < b") auto

lemma pow2_le_cancel: "(2::real) powi a \<le> 2 powi b \<Longrightarrow> a \<le> b"
  using power_int_strict_increasing [of b a "2::real"] by (cases "a \<le> b") auto

lemma ilog2_unique:
  assumes "2 powi e \<le> \<bar>q\<bar>" and "\<bar>q\<bar> < 2 powi (e + 1)"
  shows "ilog2 q = e"
proof -
  have "0 < (2::real) powi e"
    by simp
  with assms(1) have "0 < \<bar>q\<bar>"
    by linarith
  then have q: "q \<noteq> 0"
    by simp
  have "(2::real) powi e < 2 powi (ilog2 q + 1)"
    using assms(1) ilog2_upper [OF q] by linarith
  then have a: "e < ilog2 q + 1"
    by (rule pow2_less_cancel)
  have "(2::real) powi (ilog2 q) < 2 powi (e + 1)"
    using assms(2) ilog2_lower [OF q] by linarith
  then have b: "ilog2 q < e + 1"
    by (rule pow2_less_cancel)
  from a b show ?thesis
    by simp
qed

lemma fl_of_int_small:
  assumes "\<bar>n\<bar> \<le> 2 ^ p" and "0 < p" and "emin \<le> 0"
  shows "fl p emin (of_int n) = of_int n"
proof (cases "n = 0")
  case True
  then show ?thesis
    by (simp add: fl_def)
next
  case False
  define q :: real where "q = of_int n"
  define e where "e = ilog2 q"
  have q0: "q \<noteq> 0"
    using False by (simp add: q_def)
  have q1: "1 \<le> \<bar>q\<bar>"
    using False by (simp add: q_def flip: of_int_abs)
  have e0: "0 \<le> e"
  proof (rule ccontr)
    assume "\<not> 0 \<le> e"
    then have "e + 1 \<le> 0"
      by simp
    then have "(2::real) powi (e + 1) \<le> 2 powi 0"
      by (intro power_int_increasing) simp_all
    with ilog2_upper [OF q0] q1 show False
      by (simp add: e_def)
  qed
  have "real_of_int \<bar>n\<bar> \<le> real_of_int (2 ^ p)"
    using assms(1) by (simp only: of_int_le_iff)
  then have qp: "\<bar>q\<bar> \<le> 2 ^ p"
    by (simp add: q_def)
  have "(2::real) powi e \<le> 2 powi (int p)"
    using ilog2_lower [OF q0] qp by (simp add: e_def)
  then have ep: "e \<le> int p"
    by (rule pow2_le_cancel)
  have fl_eq: "fl p emin q =
      of_int (round_ties_even (q / 2 powi (e - int p + 1))) * 2 powi (e - int p + 1)"
  proof -
    have "max (ilog2 q) emin = e"
      using e0 assms(3) by (simp add: e_def)
    with q0 show ?thesis
      by (simp add: fl_def Let_def)
  qed
  show ?thesis
  proof (cases "e = int p")
    case True
    have "2 ^ p \<le> \<bar>q\<bar>"
      using ilog2_lower [OF q0] True by (simp add: e_def)
    with qp have "\<bar>real_of_int n\<bar> = real_of_int (2 ^ p)"
      by (simp add: q_def)
    then have "real_of_int \<bar>n\<bar> = real_of_int (2 ^ p)"
      by simp
    then have nabs: "\<bar>n\<bar> = 2 ^ p"
      by (simp only: of_int_eq_iff)
    obtain p' where p': "p = Suc p'"
      using assms(2) by (cases p) auto
    have "n = 2 * 2 ^ p' \<or> n = - (2 * 2 ^ p')"
      using nabs p' by (auto simp: abs_if split: if_splits)
    then obtain j where j: "n = 2 * j"
      by auto
    have u: "(2::real) powi (e - int p + 1) = 2"
      using True by simp
    have "q / 2 powi (e - int p + 1) = of_int j"
      using u j by (simp add: q_def)
    then have "round_ties_even (q / 2 powi (e - int p + 1)) = j"
      by (simp only: round_ties_even_of_int)
    then have "fl p emin q = of_int j * 2"
      by (simp only: fl_eq u)
    also have "\<dots> = q"
      using j by (simp add: q_def)
    finally show ?thesis
      by (simp only: q_def)
  next
    case False
    with ep have lt: "e < int p"
      by simp
    define k where "k = nat (int p - 1 - e)"
    have "e - int p + 1 = - int k"
      using lt by (simp add: k_def)
    then have u: "(2::real) powi (e - int p + 1) = 1 / 2 ^ k"
      by (simp add: power_int_minus_divide)
    have "q / 2 powi (e - int p + 1) = of_int (n * 2 ^ k)"
      using u by (simp add: q_def)
    then have "round_ties_even (q / 2 powi (e - int p + 1)) = n * 2 ^ k"
      by (simp only: round_ties_even_of_int)
    then have "fl p emin q = of_int (n * 2 ^ k) * (1 / 2 ^ k)"
      by (simp only: fl_eq u)
    also have "\<dots> = q"
      by (simp add: q_def)
    finally show ?thesis
      by (simp only: q_def)
  qed
qed

lemma f64_of_int: "\<bar>n\<bar> \<le> 2 ^ 53 \<Longrightarrow> f64 (of_int n) = of_int n"
  by (simp add: f64_def fl_of_int_small)

lemma f64_of_nat: "n \<le> 2 ^ 53 \<Longrightarrow> f64 (of_nat n) = of_nat n"
  using f64_of_int [of "int n"] by simp

section \<open>Evaluation on literals\<close>

lemma bitlen_numeral_Bit0: "bitlen (numeral (Num.Bit0 n)) = bitlen (numeral n) + 1"
  by (subst compute_bitlen) simp

lemma bitlen_numeral_Bit1: "bitlen (numeral (Num.Bit1 n)) = bitlen (numeral n) + 1"
  by (subst compute_bitlen) simp

lemma bitlen_one: "bitlen 1 = 1"
  by (subst compute_bitlen) simp

lemma bitlen_neg_numeral: "bitlen (- numeral n) = 0"
  by (subst compute_bitlen) simp

lemmas bitlen_eval = bitlen_numeral_Bit0 bitlen_numeral_Bit1 bitlen_one bitlen_neg_numeral

lemmas fl_literal =
  fl_def [of _ _ 0] fl_def [of _ _ 1] fl_def [of _ _ "- 1"]
  fl_def [of _ _ "numeral a"] fl_def [of _ _ "- numeral a"]
  fl_def [of _ _ "numeral a / numeral b"] fl_def [of _ _ "- (numeral a / numeral b)"]
  fl_def [of _ _ "1 / numeral b"] fl_def [of _ _ "- (1 / numeral b)"]
  for a b

lemmas ilog2_literal =
  ilog2_def [of 1] ilog2_def [of "- 1"]
  ilog2_def [of "numeral a"] ilog2_def [of "- numeral a"]
  ilog2_def [of "numeral a / numeral b"] ilog2_def [of "- (numeral a / numeral b)"]
  ilog2_def [of "1 / numeral b"] ilog2_def [of "- (1 / numeral b)"]
  for a b

lemmas round_ties_even_literal =
  round_ties_even_def [of 0] round_ties_even_def [of 1] round_ties_even_def [of "- 1"]
  round_ties_even_def [of "numeral a"] round_ties_even_def [of "- numeral a"]
  round_ties_even_def [of "numeral a / numeral b"]
  round_ties_even_def [of "- (numeral a / numeral b)"]
  round_ties_even_def [of "1 / numeral b"] round_ties_even_def [of "- (1 / numeral b)"]
  for a b

lemmas float_eval = f64_def f32_def js_add_def js_sub_def js_mul_def js_div_def js_rem_def
  fl_literal ilog2_literal round_ties_even_literal bitlen_eval Let_def power_int_minus

lemma mandel_while_continue:
  "i < m \<Longrightarrow> js_add (js_mul zx zx) (js_mul zy zy) < 4 \<Longrightarrow>
   mandel_while cx cy m zx zy i =
     mandel_while cx cy m
       (js_add (js_sub (js_mul zx zx) (js_mul zy zy)) cx)
       (js_add (js_mul (js_mul 2 zx) zy) cy)
       (js_add i 1)"
  by (subst mandel_while.simps) simp

lemma mandel_while_stop:
  "\<not> (i < m \<and> js_add (js_mul zx zx) (js_mul zy zy) < 4) \<Longrightarrow>
   mandel_while cx cy m zx zy i = Some i"
  by (subst mandel_while.simps) auto

lemma js_add_one: "n < 2 ^ 53 \<Longrightarrow> js_add (real n) 1 = real (Suc n)"
  using f64_of_nat [of "Suc n"] by (simp add: js_add_def add.commute)

lemma js_inc_stalls: "js_add (2 ^ 53) 1 = 2 ^ 53"
  by (simp add: float_eval)

lemma escape_count_eqI:
  assumes "k \<le> m" and "\<forall>i<k. inside (orbit c i)" and "k = m \<or> \<not> inside (orbit c k)"
  shows "escape_count c m = k"
proof (cases "k = m")
  case True
  with assms(2) have "find (\<lambda>i. \<not> inside (orbit c i)) [0..<m] = None"
    by (simp add: find_None_iff)
  with True show ?thesis
    by (simp add: escape_count_def)
next
  case False
  with assms have km: "k < m" and esc: "\<not> inside (orbit c k)"
    by auto
  have "find (\<lambda>i. \<not> inside (orbit c i)) [0..<m] = Some k"
    unfolding find_Some_iff
    using km esc assms(2) by (intro exI [of _ k]) simp
  then show ?thesis
    by (simp add: escape_count_def)
qed

lemma mandel_while_from:
  assumes "m \<le> 2 ^ 53" and "n \<le> m" and "orbit (cx, cy) n = (zx, zy)"
  shows "\<exists>k. mandel_while cx cy (real m) zx zy (real n) = Some (real k) \<and> n \<le> k \<and> k \<le> m \<and>
           (\<forall>i. n \<le> i \<and> i < k \<longrightarrow> inside (orbit (cx, cy) i)) \<and>
           (k = m \<or> \<not> inside (orbit (cx, cy) k))"
  using assms(2,3)
proof (induction "m - n" arbitrary: n zx zy)
  case 0
  then have "n = m"
    by simp
  then have "mandel_while cx cy (real m) zx zy (real n) = Some (real n)"
    by (simp add: mandel_while_stop)
  with \<open>n = m\<close> show ?case
    by auto
next
  case (Suc d)
  then have nm: "n < m"
    by simp
  show ?case
  proof (cases "inside (orbit (cx, cy) n)")
    case False
    then have "\<not> js_add (js_mul zx zx) (js_mul zy zy) < 4"
      using Suc.prems(2) by (simp add: inside_def)
    then have "mandel_while cx cy (real m) zx zy (real n) = Some (real n)"
      by (simp add: mandel_while_stop)
    with False Suc.prems(1) show ?thesis
      by auto
  next
    case True
    then have c: "js_add (js_mul zx zx) (js_mul zy zy) < 4"
      using Suc.prems(2) by (simp add: inside_def)
    define zx' where "zx' = js_add (js_sub (js_mul zx zx) (js_mul zy zy)) cx"
    define zy' where "zy' = js_add (js_mul (js_mul 2 zx) zy) cy"
    have n53: "n < 2 ^ 53"
      using nm assms(1) by simp
    have step: "mandel_while cx cy (real m) zx zy (real n) =
        mandel_while cx cy (real m) zx' zy' (real (Suc n))"
      using nm c by (simp add: mandel_while_continue js_add_one [OF n53] zx'_def zy'_def)
    have o: "orbit (cx, cy) (Suc n) = (zx', zy')"
      using Suc.prems(2) by (simp add: zx'_def zy'_def)
    have "d = m - Suc n" and "Suc n \<le> m"
      using Suc.hyps(2) nm by simp_all
    from Suc.hyps(1) [OF this o] obtain k where k:
      "mandel_while cx cy (real m) zx' zy' (real (Suc n)) = Some (real k)"
      "Suc n \<le> k" "k \<le> m"
      "\<forall>i. Suc n \<le> i \<and> i < k \<longrightarrow> inside (orbit (cx, cy) i)"
      "k = m \<or> \<not> inside (orbit (cx, cy) k)"
      by blast
    have "\<forall>i. n \<le> i \<and> i < k \<longrightarrow> inside (orbit (cx, cy) i)"
    proof (intro allI impI)
      fix i
      assume "n \<le> i \<and> i < k"
      then show "inside (orbit (cx, cy) i)"
        using k(4) True by (cases "i = n") auto
    qed
    with k step show ?thesis
      by (intro exI [of _ k]) simp
  qed
qed

lemma mandel_while_escape_count:
  assumes "m \<le> 2 ^ 53"
  shows "mandel_while cx cy (real m) 0 0 0 = Some (real (escape_count (cx, cy) m))"
proof -
  from mandel_while_from [OF assms, of 0 cx cy 0 0] obtain k where k:
    "mandel_while cx cy (real m) 0 0 0 = Some (real k)" "k \<le> m"
    "\<forall>i. i < k \<longrightarrow> inside (orbit (cx, cy) i)"
    "k = m \<or> \<not> inside (orbit (cx, cy) k)"
    by auto
  then have "escape_count (cx, cy) m = k"
    by (intro escape_count_eqI) auto
  with k(1) show ?thesis
    by simp
qed

lemma mandel_while_never:
  assumes inv: "\<And>n. inside (orbit (cx, cy) n)" and big: "2 ^ 53 < M"
  shows "mandel_while cx cy M 0 0 0 = None"
proof (rule ccontr)
  assume "mandel_while cx cy M 0 0 0 \<noteq> None"
  then obtain r where r: "mandel_while cx cy M 0 0 0 = Some r"
    by auto
  let ?P = "\<lambda>cx' cy' M' zx zy i (y::real).
    \<not> (cx' = cx \<and> cy' = cy \<and> M' = M \<and> (\<exists>n. orbit (cx, cy) n = (zx, zy)) \<and>
       (\<exists>j. i = real j \<and> j \<le> 2 ^ 53))"
  have "?P cx cy M 0 0 0 r"
  proof (rule mandel_while.raw_induct [where P = ?P, OF _ r])
    fix f :: "real \<Rightarrow> real \<Rightarrow> real \<Rightarrow> real \<Rightarrow> real \<Rightarrow> real \<Rightarrow> real option"
    fix cx' cy' M' zx zy i y :: real
    assume IH: "\<And>cx' cy' M' zx zy i y. f cx' cy' M' zx zy i = Some y \<Longrightarrow> ?P cx' cy' M' zx zy i y"
    assume eq: "(if i < M' \<and> js_add (js_mul zx zx) (js_mul zy zy) < 4
        then f cx' cy' M' (js_add (js_sub (js_mul zx zx) (js_mul zy zy)) cx')
               (js_add (js_mul (js_mul 2 zx) zy) cy') (js_add i 1)
        else Some i) = Some y"
    show "?P cx' cy' M' zx zy i y"
    proof
      assume a: "cx' = cx \<and> cy' = cy \<and> M' = M \<and> (\<exists>n. orbit (cx, cy) n = (zx, zy)) \<and>
           (\<exists>j. i = real j \<and> j \<le> 2 ^ 53)"
      then obtain n j where n: "orbit (cx, cy) n = (zx, zy)" and j: "i = real j" "j \<le> 2 ^ 53"
        by blast
      from a have eqs: "cx' = cx" "cy' = cy" "M' = M"
        by simp_all
      have "real j \<le> real (2 ^ 53)"
        using j(2) by (simp only: of_nat_le_iff)
      then have "i \<le> 2 ^ 53"
        using j(1) by simp
      then have lt: "i < M"
        using big by simp
      have c: "js_add (js_mul zx zx) (js_mul zy zy) < 4"
        using inv [of n] n by (simp add: inside_def)
      define zx' where "zx' = js_add (js_sub (js_mul zx zx) (js_mul zy zy)) cx"
      define zy' where "zy' = js_add (js_mul (js_mul 2 zx) zy) cy"
      from eq lt c have "f cx cy M zx' zy' (js_add i 1) = Some y"
        unfolding eqs zx'_def zy'_def by simp
      from IH [OF this]
      have no: "\<not> ((\<exists>n. orbit (cx, cy) n = (zx', zy')) \<and> (\<exists>j. js_add i 1 = real j \<and> j \<le> 2 ^ 53))"
        by simp
      have o: "orbit (cx, cy) (Suc n) = (zx', zy')"
        using n by (simp add: zx'_def zy'_def)
      have "\<exists>j'. js_add i 1 = real j' \<and> j' \<le> 2 ^ 53"
      proof (cases "j < 2 ^ 53")
        case True
        then show ?thesis
          using js_add_one [OF True] j(1) by (intro exI [of _ "Suc j"]) simp
      next
        case False
        with j(2) have "j = 2 ^ 53"
          by simp
        then show ?thesis
          using js_inc_stalls j(1) by (intro exI [of _ j]) simp
      qed
      with o no show False
        by blast
    qed
  qed
  moreover have "orbit (cx, cy) 0 = (0, 0)"
    by simp
  moreover have "(0::real) = real 0 \<and> (0::nat) \<le> 2 ^ 53"
    by simp
  ultimately show False
    by blast
qed

section \<open>The loops of the CPU implementation\<close>

lemma ToUint32_of_nat: "ToUint32 (real k) = of_nat k"
  by (simp add: ToUint32_def)

lemma cell_loop:
  assumes "0 \<le> m" and "m \<le> 2 ^ 53"
  shows "mandel_while (fst (sample_point x y w h)) (snd (sample_point x y w h)) (of_int m) 0 0 0 =
         Some (real (escape_count (sample_point x y w h) (nat m)))"
proof -
  have "nat m \<le> 2 ^ 53"
    using assms by (simp add: nat_le_iff)
  from mandel_while_escape_count [OF this]
  show ?thesis
    using assms(1) by simp
qed

lemma js_inc_exact: "0 \<le> n \<Longrightarrow> n < 2 ^ 53 \<Longrightarrow> js_inc n = n + 1"
  using f64_of_int [of "n + 1"] by (simp add: js_inc_def js_add_def)

lemma js_inc_stalls_int: "js_inc (2 ^ 53) = 2 ^ 53"
  using js_inc_stalls by (simp add: js_inc_def)

lemma array_index_exact:
  assumes "0 \<le> y * w" and "0 \<le> x" and "y * w + x \<le> 2 ^ 53"
  shows "array_index y w x = y * w + x"
proof -
  have "\<bar>y * w\<bar> \<le> 2 ^ 53" and "\<bar>y * w + x\<bar> \<le> 2 ^ 53"
    using assms by simp_all
  from f64_of_int [OF this(1)] f64_of_int [OF this(2)]
  have "js_mul (of_int y) (of_int w) = of_int (y * w)"
    and "js_add (of_int (y * w)) (of_int x) = of_int (y * w + x)"
    by (simp_all add: js_add_def js_mul_def)
  then show ?thesis
    by (simp only: array_index_def floor_of_int)
qed

lemma for_x_step:
  assumes "0 \<le> m" and "m \<le> 2 ^ 53" and "x < w" and "0 \<le> x" and "0 \<le> y * w"
    and "y * w + w \<le> 2 ^ 53"
  shows "for_x w h m y x data =
         for_x w h m y (x + 1) (data[nat (y * w + x) := cell_word w h m x y])"
proof -
  have "w \<le> 2 ^ 53"
    using assms(5,6) by simp
  then have inc: "js_inc x = x + 1"
    using assms(3,4) by (intro js_inc_exact) simp_all
  have idx: "array_index y w x = y * w + x"
    using assms(3-6) by (intro array_index_exact) simp_all
  have "0 \<le> y * w + x"
    using assms(4,5) by simp
  then show ?thesis
    using assms(3) cell_loop [OF assms(1,2), of x y w h]
    by (subst for_x.simps)
      (simp add: sample_point_def cell_word_def ToUint32_of_nat inc idx array_set_def)
qed

lemma for_x_done: "\<not> x < w \<Longrightarrow> for_x w h m y x data = Some data"
  by (subst for_x.simps) simp

lemma for_x_result:
  assumes "0 \<le> m" and "m \<le> 2 ^ 53" and "0 \<le> y * w" and "y * w + w \<le> 2 ^ 53" and "0 \<le> x"
  shows "\<exists>data'. for_x w h m y x data = Some data' \<and> length data' = length data \<and>
           (\<forall>k<length data. data' ! k =
              (if y * w + x \<le> int k \<and> int k < y * w + w then cell_word w h m (int k - y * w) y
               else data ! k))"
  using assms(5)
proof (induction "nat (w - x)" arbitrary: x data)
  case 0
  then have "\<not> x < w"
    by simp
  then show ?case
    by (auto simp: for_x_done)
next
  case (Suc d)
  then have xw: "x < w"
    by simp
  have nn: "0 \<le> y * w + x"
    using Suc.prems assms(3) by simp
  define data1 where "data1 = data[nat (y * w + x) := cell_word w h m x y]"
  have "d = nat (w - (x + 1))" and "0 \<le> x + 1"
    using Suc.hyps(2) Suc.prems by simp_all
  from Suc.hyps(1) [OF this, of data1] obtain data' where d:
    "for_x w h m y (x + 1) data1 = Some data'" "length data' = length data1"
    "\<forall>k<length data1. data' ! k =
        (if y * w + (x + 1) \<le> int k \<and> int k < y * w + w then cell_word w h m (int k - y * w) y
         else data1 ! k)"
    by blast
  have len: "length data1 = length data"
    by (simp add: data1_def)
  have "data' ! k =
      (if y * w + x \<le> int k \<and> int k < y * w + w then cell_word w h m (int k - y * w) y
       else data ! k)" if k: "k < length data" for k
  proof (cases "int k = y * w + x")
    case True
    then have "k = nat (y * w + x)"
      by simp
    then have "data1 ! k = cell_word w h m x y"
      using k by (simp add: data1_def)
    moreover have "int k - y * w = x"
      using True by simp
    ultimately show ?thesis
      using d(3) k len True xw by simp
  next
    case False
    then have "k \<noteq> nat (y * w + x)"
      using nn by auto
    then have "data1 ! k = data ! k"
      by (simp add: data1_def)
    then show ?thesis
      using d(3) k len False by auto
  qed
  then show ?case
    using d(1,2) len for_x_step [OF assms(1,2) xw Suc.prems assms(3,4), of h data]
    by (simp add: data1_def)
qed

lemma for_y_step:
  "y < h \<Longrightarrow> for_x w h m y 0 data = Some data' \<Longrightarrow>
   for_y w h m y data = for_y w h m (js_inc y) data'"
  by (subst for_y.simps) simp

lemma for_y_done: "\<not> y < h \<Longrightarrow> for_y w h m y data = Some data"
  by (subst for_y.simps) simp

lemma for_y_result:
  assumes "0 \<le> m" and "m \<le> 2 ^ 53" and "0 < w" and "h * w \<le> 2 ^ 53" and "0 \<le> y"
  shows "\<exists>data'. for_y w h m y data = Some data' \<and> length data' = length data \<and>
           (\<forall>k<length data. data' ! k =
              (if y * w \<le> int k \<and> int k < h * w
               then cell_word w h m (int k mod w) (int k div w) else data ! k))"
  using assms(5)
proof (induction "nat (h - y)" arbitrary: y data)
  case 0
  then have yh: "\<not> y < h"
    by simp
  have none: "(y * w \<le> int k \<and> int k < h * w) = False" for k
  proof -
    have False if "y * w \<le> int k \<and> int k < h * w"
    proof -
      from that have "y * w < h * w"
        by linarith
      then show False
        using yh assms(3) by simp
    qed
    then show ?thesis
      by blast
  qed
  have "\<forall>k<length data. data ! k =
      (if y * w \<le> int k \<and> int k < h * w
       then cell_word w h m (int k mod w) (int k div w) else data ! k)"
    by (simp only: none if_False) simp
  moreover have "for_y w h m y data = Some data"
    using yh by (rule for_y_done)
  ultimately show ?case
    by (intro exI [of _ data]) simp
next
  case (Suc d)
  then have yh: "y < h"
    by simp
  have rows: "(y + 1) * w \<le> h * w"
    using yh assms(3) by (intro mult_right_mono) simp_all
  have next_row: "(y + 1) * w = y * w + w"
    by (simp add: algebra_simps)
  have y0: "0 \<le> y * w"
    using Suc.prems assms(3) by simp
  have y1: "y * w + w \<le> 2 ^ 53"
    using rows next_row assms(4) by simp
  have "y * 1 \<le> y * w"
    using Suc.prems assms(3) by (intro mult_left_mono) simp_all
  then have "y < 2 ^ 53"
    using y1 assms(3) by simp
  then have inc: "js_inc y = y + 1"
    using Suc.prems by (intro js_inc_exact) simp_all
  have "(0::int) \<le> 0"
    by simp
  from for_x_result [OF assms(1,2) y0 y1 this, of h data] obtain data1 where d1:
    "for_x w h m y 0 data = Some data1" "length data1 = length data"
    "\<forall>k<length data. data1 ! k =
        (if y * w \<le> int k \<and> int k < y * w + w then cell_word w h m (int k - y * w) y
         else data ! k)"
    by auto
  have "d = nat (h - (y + 1))" and "0 \<le> y + 1"
    using Suc.hyps(2) Suc.prems by simp_all
  from Suc.hyps(1) [OF this, of data1] obtain data' where d:
    "for_y w h m (y + 1) data1 = Some data'" "length data' = length data1"
    "\<forall>k<length data1. data' ! k =
        (if (y + 1) * w \<le> int k \<and> int k < h * w
         then cell_word w h m (int k mod w) (int k div w) else data1 ! k)"
    by blast
  have "data' ! k =
      (if y * w \<le> int k \<and> int k < h * w
       then cell_word w h m (int k mod w) (int k div w) else data ! k)"
    if k: "k < length data" for k
  proof -
    from d(3) k d1(2) have e1: "data' ! k =
        (if (y + 1) * w \<le> int k \<and> int k < h * w
         then cell_word w h m (int k mod w) (int k div w) else data1 ! k)"
      by simp
    from d1(3) k have e2: "data1 ! k =
        (if y * w \<le> int k \<and> int k < y * w + w then cell_word w h m (int k - y * w) y
         else data ! k)"
      by simp
    show ?thesis
    proof (cases "y * w \<le> int k \<and> int k < y * w + w")
      case True
      then have dv: "int k div w = y"
        by (intro int_div_pos_eq [where r = "int k - y * w"]) (simp_all add: algebra_simps)
      from True have md: "int k mod w = int k - y * w"
        by (intro int_mod_pos_eq [where q = y]) (simp_all add: algebra_simps)
      have B: "((y + 1) * w \<le> int k \<and> int k < h * w) = False"
        using True next_row by simp
      have C: "y * w \<le> int k \<and> int k < h * w"
        using True next_row rows by simp
      show ?thesis
        using True C by (simp add: e1 e2 B dv md)
    next
      case False
      then have A: "(y * w \<le> int k \<and> int k < y * w + w) = False"
        by simp
      show ?thesis
      proof (cases "(y + 1) * w \<le> int k \<and> int k < h * w")
        case True
        then have C: "y * w \<le> int k \<and> int k < h * w"
          using next_row assms(3) by simp
        show ?thesis
          using True C by (simp add: e1)
      next
        case False
        then have B: "((y + 1) * w \<le> int k \<and> int k < h * w) = False"
          by simp
        have C: "(y * w \<le> int k \<and> int k < h * w) = False"
          using A B next_row by auto
        show ?thesis
          by (simp add: e1 e2 A B C)
      qed
    qed
  qed
  then show ?case
    using d(1,2) d1(1,2) for_y_step [OF yh d1(1)] inc by simp
qed

lemma escape_grid_nth:
  "k < nat (w * h) \<Longrightarrow>
   escape_grid w h m ! k = cell_word w h m (int k mod w) (int k div w)"
  by (simp add: escape_grid_def)

lemma length_escape_grid: "length (escape_grid w h m) = nat (w * h)"
  by (simp add: escape_grid_def)

lemma calculateMandelbrotCPU_grid:
  assumes "0 < w" and "0 < h" and "w * h \<le> 2 ^ 53 - 1" and "0 \<le> m" and "m \<le> 2 ^ 53"
    and "w * h \<le> L"
  shows "calculateMandelbrotCPU L w h m = Some (Inr (escape_grid w h m))"
proof -
  define data0 :: "u32 list" where "data0 = replicate (nat (w * h)) 0"
  have len0: "length data0 = nat (w * h)"
    by (simp add: data0_def)
  have "(0::int) \<le> 0"
    by simp
  moreover have "h * w \<le> 2 ^ 53"
    using assms(3) by (simp add: mult.commute)
  ultimately obtain data where
    d1: "for_y w h m 0 data0 = Some data" and d2: "length data = length data0" and
    d3: "\<forall>k<length data0. data ! k =
        (if 0 * w \<le> int k \<and> int k < h * w
         then cell_word w h m (int k mod w) (int k div w) else data0 ! k)"
    using for_y_result [OF assms(4,5,1), of h 0 data0] by blast
  have "data = escape_grid w h m"
  proof (rule nth_equalityI)
    show "length data = length (escape_grid w h m)"
      by (simp only: d2 len0 length_escape_grid)
  next
    fix k
    assume "k < length data"
    then have k: "k < nat (w * h)"
      by (simp only: d2 len0)
    then have "int k < w * h"
      by simp
    then have c: "0 * w \<le> int k \<and> int k < h * w"
      by (simp add: mult.commute)
    from d3 k len0 have "data ! k =
        (if 0 * w \<le> int k \<and> int k < h * w
         then cell_word w h m (int k mod w) (int k div w) else data0 ! k)"
      by simp
    with c have "data ! k = cell_word w h m (int k mod w) (int k div w)"
      by (simp only: if_True simp_thms)
    then show "data ! k = escape_grid w h m ! k"
      by (simp only: escape_grid_nth [OF k])
  qed
  moreover have "0 \<le> w * h"
    using assms(1,2) by (simp add: less_imp_le)
  then have "\<not> (w * h < 0 \<or> 2 ^ 53 - 1 < w * h \<or> L < w * h)"
    using assms(3,6) by (simp only: not_less de_Morgan_disj)
  ultimately show ?thesis
    using d1 by (simp only: calculateMandelbrotCPU_def data0_def if_False option.map)
qed

lemma escape_count_props:
  "escape_count c m \<le> m"
  "\<forall>i<escape_count c m. inside (orbit c i)"
  "escape_count c m = m \<or> \<not> inside (orbit c (escape_count c m))"
proof -
  let ?P = "\<lambda>i. \<not> inside (orbit c i)"
  have "escape_count c m \<le> m \<and> (\<forall>i<escape_count c m. inside (orbit c i)) \<and>
        (escape_count c m = m \<or> \<not> inside (orbit c (escape_count c m)))"
  proof (cases "find ?P [0..<m]")
    case None
    then have "\<forall>i<m. inside (orbit c i)"
      by (simp add: find_None_iff)
    with None show ?thesis
      by (simp add: escape_count_def)
  next
    case (Some k)
    then obtain j where j: "j < length [0..<m]" "?P ([0..<m] ! j)" "k = [0..<m] ! j"
      "\<forall>j'<j. \<not> ?P ([0..<m] ! j')"
      unfolding find_Some_iff by blast
    then have "k < m" and "\<not> inside (orbit c k)" and "\<forall>i<k. inside (orbit c i)"
      by auto
    with Some show ?thesis
      by (simp add: escape_count_def)
  qed
  then show "escape_count c m \<le> m" and "\<forall>i<escape_count c m. inside (orbit c i)"
    and "escape_count c m = m \<or> \<not> inside (orbit c (escape_count c m))"
    by simp_all
qed

lemma escape_count_min:
  assumes "m \<le> m'"
  shows "escape_count c m = min (escape_count c m') m"
proof (rule escape_count_eqI)
  show "min (escape_count c m') m \<le> m"
    by simp
  show "\<forall>i<min (escape_count c m') m. inside (orbit c i)"
    using escape_count_props(2) [of c m'] by simp
  show "min (escape_count c m') m = m \<or> \<not> inside (orbit c (min (escape_count c m') m))"
  proof (cases "m \<le> escape_count c m'")
    case True
    then show ?thesis
      by (simp add: min_def)
  next
    case False
    then have "escape_count c m' \<noteq> m'" and k: "min (escape_count c m') m = escape_count c m'"
      using assms by simp_all
    with escape_count_props(3) [of c m'] show ?thesis
      by simp
  qed
qed

lemma cell_index:
  assumes "0 \<le> x" and "x < w" and "0 \<le> y" and "y < h"
  shows "nat (y * w + x) < nat (w * h)"
    and "int (nat (y * w + x)) mod w = x"
    and "int (nat (y * w + x)) div w = y"
proof -
  have w: "0 < w"
    using assms(1,2) by simp
  have nn: "0 \<le> y * w + x"
    using assms(1,3) w by simp
  have "(y + 1) * w \<le> h * w"
    using assms(4) w by (intro mult_right_mono) simp_all
  then have "y * w + x < w * h"
    using assms(2) by (simp add: algebra_simps)
  then show "nat (y * w + x) < nat (w * h)"
    using nn by simp
  show "int (nat (y * w + x)) mod w = x"
    using nn assms(1,2) by (simp add: int_mod_pos_eq [where q = y] algebra_simps)
  show "int (nat (y * w + x)) div w = y"
    using nn assms(1,2) by (simp add: int_div_pos_eq [where r = x] algebra_simps)
qed

lemma escape_grid_cell:
  assumes "0 \<le> x" and "x < w" and "0 \<le> y" and "y < h"
  shows "escape_grid w h m ! nat (y * w + x) = cell_word w h m x y"
  using cell_index [OF assms] by (simp add: escape_grid_nth)

lemma unat_cell_word:
  assumes "0 \<le> m" and "m < 2 ^ 32"
  shows "unat (cell_word w h m x y) = escape_count (sample_point x y w h) (nat m)"
proof -
  have "escape_count (sample_point x y w h) (nat m) \<le> nat m"
    by (rule escape_count_props)
  also have "nat m < 2 ^ 32"
    using assms by (simp add: nat_less_iff)
  finally show ?thesis
    by (simp add: cell_word_def unat_of_nat)
qed

section \<open>A grid of four cells\<close>

lemma for_x_None:
  assumes "x < w"
    and "mandel_while (fst (sample_point x y w h)) (snd (sample_point x y w h)) (of_int m) 0 0 0 = None"
  shows "for_x w h m y x data = None"
  using assms by (subst for_x.simps) (simp add: sample_point_def)

lemma for_x_Some:
  assumes "x < w"
    and "mandel_while (fst (sample_point x y w h)) (snd (sample_point x y w h)) (of_int m) 0 0 0 = Some i"
  shows "for_x w h m y x data =
         for_x w h m y (js_inc x) (array_set data (array_index y w x) i)"
  using assms by (subst for_x.simps) (simp add: sample_point_def)

lemma for_y_None: "y < h \<Longrightarrow> for_x w h m y 0 data = None \<Longrightarrow> for_y w h m y data = None"
  by (subst for_y.simps) simp

lemma sample_points_4x1:
  "sample_point 0 0 4 1 = (- (15 / 8), - 1)"
  "sample_point 1 0 4 1 = (- (5 / 4), - 1)"
  "sample_point 2 0 4 1 = (- (5 / 8), - 1)"
  "sample_point 3 0 4 1 = (0, - 1)"
  by (simp_all add: sample_point_def float_eval)

lemma orbit_cell0:
  "inside (orbit (- (15 / 8), - 1) 0)"
  "\<not> inside (orbit (- (15 / 8), - 1) (Suc 0))"
  by (simp_all add: inside_def float_eval)

lemma orbit_cell1:
  "inside (orbit (- (5 / 4), - 1) 0)"
  "inside (orbit (- (5 / 4), - 1) (Suc 0))"
  "inside (orbit (- (5 / 4), - 1) (Suc (Suc 0)))"
  "\<not> inside (orbit (- (5 / 4), - 1) (Suc (Suc (Suc 0))))"
  by (simp_all add: inside_def float_eval)

lemma orbit_cell2:
  "inside (orbit (- (5 / 8), - 1) 0)"
  "inside (orbit (- (5 / 8), - 1) (Suc 0))"
  "inside (orbit (- (5 / 8), - 1) (Suc (Suc 0)))"
  "inside (orbit (- (5 / 8), - 1) (Suc (Suc (Suc 0))))"
  "\<not> inside (orbit (- (5 / 8), - 1) (Suc (Suc (Suc (Suc 0)))))"
  by (simp_all add: inside_def float_eval)

lemma escape_count_cell0: "1 \<le> m \<Longrightarrow> escape_count (- (15 / 8), - 1) m = 1"
  using orbit_cell0 by (intro escape_count_eqI) (simp_all add: less_Suc_eq)

lemma escape_count_cell1: "3 \<le> m \<Longrightarrow> escape_count (- (5 / 4), - 1) m = 3"
  using orbit_cell1 by (intro escape_count_eqI) (auto simp: less_Suc_eq eval_nat_numeral)

lemma escape_count_cell2: "4 \<le> m \<Longrightarrow> escape_count (- (5 / 8), - 1) m = 4"
  using orbit_cell2 by (intro escape_count_eqI) (auto simp: less_Suc_eq eval_nat_numeral)

lemma orbit_cell3:
  "orbit (0, - 1) n \<in> {(0, 0), (0, - 1), (- 1, - 1), (0, 1)}"
proof (induction n)
  case 0
  show ?case
    by simp
next
  case (Suc n)
  then consider "orbit (0, - 1) n = (0, 0)" | "orbit (0, - 1) n = (0, - 1)"
    | "orbit (0, - 1) n = (- 1, - 1)" | "orbit (0, - 1) n = (0, 1)"
    by auto
  then show ?case
    by cases (simp_all add: float_eval)
qed

lemma inside_cell3: "inside (orbit (0, - 1) n)"
proof -
  have "inside (0, 0)" "inside (0, - 1)" "inside (- 1, - 1)" "inside (0, 1)"
    by (simp_all add: inside_def float_eval)
  with orbit_cell3 [of n] show ?thesis
    by auto
qed

lemma escape_count_cell3: "escape_count (0, - 1) m = m"
  by (intro escape_count_eqI) (simp_all add: inside_cell3)

lemma escape_grid_4x1:
  "escape_grid 4 1 m = [cell_word 4 1 m 0 0, cell_word 4 1 m 1 0, cell_word 4 1 m 2 0, cell_word 4 1 m 3 0]"
  by (simp add: escape_grid_def upt_rec)

section \<open>The CPU implementation: results\<close>

text \<open>
  C2 (amended). For a grid whose array can be allocated and a cap below \<open>2 ^ 32\<close>, the
  CPU implementation returns an array of exactly \<open>width * height\<close> unsigned integers;
  the entry at the row-major index \<open>y * width + x\<close> is the escape count of the cell's
  sample point, the first \<open>i\<close> with \<open>i = maxIter\<close> or \<open>zx * zx + zy * zy \<ge> 4\<close>, and lies
  in \<open>[0, maxIter]\<close>.
\<close>

theorem reference_evaluator_result:
  assumes "0 < w" and "0 < h" and "w * h \<le> 2 ^ 53 - 1" and "w * h \<le> L"
    and "0 \<le> m" and "m < 2 ^ 32"
  shows "\<exists>data. calculateMandelbrotCPU L w h m = Some (Inr data) \<and>
           length data = nat (w * h) \<and>
           (\<forall>x y. 0 \<le> x \<and> x < w \<and> 0 \<le> y \<and> y < h \<longrightarrow>
              unat (data ! nat (y * w + x)) = escape_count (sample_point x y w h) (nat m) \<and>
              unat (data ! nat (y * w + x)) \<le> nat m)"
proof -
  have "m \<le> 2 ^ 53"
    using assms(6) by simp
  from calculateMandelbrotCPU_grid [OF assms(1,2,3,5) this assms(4)]
  have r: "calculateMandelbrotCPU L w h m = Some (Inr (escape_grid w h m))" .
  have "unat (escape_grid w h m ! nat (y * w + x)) = escape_count (sample_point x y w h) (nat m) \<and>
        unat (escape_grid w h m ! nat (y * w + x)) \<le> nat m"
    if "0 \<le> x \<and> x < w \<and> 0 \<le> y \<and> y < h" for x y
    using that escape_count_props(1) [of "sample_point x y w h" "nat m"]
    by (simp add: escape_grid_cell unat_cell_word [OF assms(5,6)])
  with r show ?thesis
    by (intro exI [of _ "escape_grid w h m"]) (simp add: length_escape_grid escape_count_props(1))
qed

theorem reference_evaluator_result_witness:
  "\<exists>data. calculateMandelbrotCPU 4 4 1 5 = Some (Inr data) \<and>
           length data = nat (4 * 1) \<and>
           (\<forall>x y. 0 \<le> x \<and> x < 4 \<and> 0 \<le> y \<and> y < 1 \<longrightarrow>
              unat (data ! nat (y * 4 + x)) = escape_count (sample_point x y 4 1) (nat 5) \<and>
              unat (data ! nat (y * 4 + x)) \<le> nat 5)"
  by (rule reference_evaluator_result) simp_all

lemma grid_4x1:
  assumes "0 \<le> m" and "m \<le> 2 ^ 53"
  shows "calculateMandelbrotCPU (2 ^ 53 - 1) 4 1 m =
         Some (Inr [of_nat (escape_count (- (15 / 8), - 1) (nat m)),
                    of_nat (escape_count (- (5 / 4), - 1) (nat m)),
                    of_nat (escape_count (- (5 / 8), - 1) (nat m)),
                    of_nat (escape_count (0, - 1) (nat m))])"
  using calculateMandelbrotCPU_grid [of 4 1 m "2 ^ 53 - 1"] assms
  by (simp add: escape_grid_4x1 cell_word_def sample_points_4x1)

theorem reference_evaluator_result_counterexample:
  "calculateMandelbrotCPU (2 ^ 53 - 1) 4 1 (2 ^ 32) = Some (Inr [1, 3, 4, 0]) \<and>
   escape_count (sample_point 3 0 4 1) (nat (2 ^ 32)) = 2 ^ 32"
  using grid_4x1 [of "2 ^ 32"]
  by (simp add: escape_count_cell0 escape_count_cell1 escape_count_cell2
      escape_count_cell3 sample_points_4x1)


text \<open>
  C7 (amended). For a grid whose array can be allocated and a cap of at most \<open>2 ^ 53\<close>,
  the CPU implementation returns an array and raises nothing, and the loop of every
  cell returns with a counter of at most \<open>maxIter\<close>; the counter starts at \<open>0\<close> and
  grows by exactly one in each pass, so it is the number of passes.
\<close>

theorem reference_evaluator_terminates:
  assumes "0 < w" and "0 < h" and "w * h \<le> 2 ^ 53 - 1" and "w * h \<le> L"
    and "0 \<le> m" and "m \<le> 2 ^ 53"
  shows "(\<exists>data. calculateMandelbrotCPU L w h m = Some (Inr data)) \<and>
         (\<forall>x y. 0 \<le> x \<and> x < w \<and> 0 \<le> y \<and> y < h \<longrightarrow>
            (\<exists>k. mandel_while (fst (sample_point x y w h)) (snd (sample_point x y w h))
                   (of_int m) 0 0 0 = Some (real k) \<and> k \<le> nat m))"
proof -
  have "\<exists>k. mandel_while (fst (sample_point x y w h)) (snd (sample_point x y w h))
               (of_int m) 0 0 0 = Some (real k) \<and> k \<le> nat m" for x y
    using cell_loop [OF assms(5,6), of x y w h]
      escape_count_props(1) [of "sample_point x y w h" "nat m"]
    by blast
  then show ?thesis
    using calculateMandelbrotCPU_grid [OF assms(1,2,3,5,6,4)] by simp
qed

theorem reference_evaluator_terminates_witness:
  "(\<exists>data. calculateMandelbrotCPU 4 4 1 5 = Some (Inr data)) \<and>
   (\<exists>k. mandel_while (fst (sample_point 3 0 4 1)) (snd (sample_point 3 0 4 1))
          (of_int 5) 0 0 0 = Some (real k) \<and> k \<le> nat 5)"
proof -
  have "(\<exists>data. calculateMandelbrotCPU 4 4 1 5 = Some (Inr data)) \<and>
     (\<forall>x y. 0 \<le> x \<and> x < 4 \<and> 0 \<le> y \<and> y < 1 \<longrightarrow>
        (\<exists>k. mandel_while (fst (sample_point x y 4 1)) (snd (sample_point x y 4 1))
               (of_int 5) 0 0 0 = Some (real k) \<and> k \<le> nat 5))"
    by (rule reference_evaluator_terminates) simp_all
  then show ?thesis
    by auto
qed

lemma cell3_diverges: "mandel_while 0 (- 1) 9007199254740994 0 0 0 = None"
  by (rule mandel_while_never) (simp_all add: inside_cell3)

lemma cells_big_cap:
  "mandel_while (- (15 / 8)) (- 1) 9007199254740994 0 0 0 = Some 1"
  "mandel_while (- (5 / 4)) (- 1) 9007199254740994 0 0 0 = Some 3"
  "mandel_while (- (5 / 8)) (- 1) 9007199254740994 0 0 0 = Some 4"
  by (simp_all add: mandel_while_continue mandel_while_stop float_eval)

theorem reference_evaluator_terminates_counterexample:
  "calculateMandelbrotCPU (2 ^ 53 - 1) 4 1 (2 ^ 53 + 2) = None \<and>
   calculateMandelbrotCPU (2 ^ 53 - 1) (2 ^ 53) 1 0 = Some (Inl RangeError)"
proof -
  have "for_x 4 1 9007199254740994 0 0 data = None" for data
    by (simp add: for_x_Some for_x_None sample_points_4x1 cells_big_cap cell3_diverges
        js_inc_def array_index_def array_set_def float_eval)
  then have "for_y 4 1 9007199254740994 0 data = None" for data
    by (simp add: for_y_None)
  then show ?thesis
    by (simp add: calculateMandelbrotCPU_def)
qed

lemma orbit_origin: "orbit (0, 0) n = (0, 0)"
  by (induction n) (simp_all add: float_eval)

lemma escape_count_origin: "escape_count (0, 0) m = m"
  by (intro escape_count_eqI) (simp_all add: orbit_origin inside_def float_eval)

text \<open>
  C9. On the \<open>256 \<times> 256\<close> grid with cap \<open>255\<close>, the cell \<open>x = 192\<close>, \<open>y = 128\<close> is sampled
  at \<open>c = 0\<close>, and its entry, at index \<open>128 * 256 + 192\<close>, is \<open>255\<close>.
\<close>

theorem interior_point:
  assumes "65536 \<le> L"
  shows "sample_point 192 128 256 256 = (0, 0) \<and>
         (\<exists>data. calculateMandelbrotCPU L 256 256 255 = Some (Inr data) \<and>
            data ! nat (128 * 256 + 192) = 255)"
proof -
  have c: "sample_point 192 128 256 256 = (0, 0)"
    by (simp add: sample_point_def float_eval)
  have "calculateMandelbrotCPU L 256 256 255 = Some (Inr (escape_grid 256 256 255))"
    using assms by (intro calculateMandelbrotCPU_grid) simp_all
  moreover have "escape_grid 256 256 255 ! nat (128 * 256 + 192) = cell_word 256 256 255 192 128"
    by (rule escape_grid_cell) simp_all
  moreover have "cell_word 256 256 255 192 128 = 255"
    by (simp add: cell_word_def c escape_count_origin)
  ultimately show ?thesis
    using c by simp
qed

theorem interior_point_witness:
  "sample_point 192 128 256 256 = (0, 0) \<and>
   (\<exists>data. calculateMandelbrotCPU 65536 256 256 255 = Some (Inr data) \<and>
      data ! nat (128 * 256 + 192) = 255)"
  by (rule interior_point) simp

text \<open>
  C10 (amended). For a grid whose array can be allocated and caps \<open>m \<le> m' < 2 ^ 32\<close>,
  the entry of a cell under the cap \<open>m\<close> is the minimum of \<open>m\<close> and its entry under the
  cap \<open>m'\<close>; so the entry does not decrease when the cap is raised, and an entry below
  its cap is not changed by raising the cap.
\<close>

theorem escape_count_clamp:
  assumes "0 < w" and "0 < h" and "w * h \<le> 2 ^ 53 - 1" and "w * h \<le> L"
    and "0 \<le> m" and "m \<le> m'" and "m' < 2 ^ 32"
    and "0 \<le> x" and "x < w" and "0 \<le> y" and "y < h"
  shows "\<exists>d d'. calculateMandelbrotCPU L w h m = Some (Inr d) \<and>
           calculateMandelbrotCPU L w h m' = Some (Inr d') \<and>
           unat (d ! nat (y * w + x)) = min (unat (d' ! nat (y * w + x))) (nat m) \<and>
           unat (d ! nat (y * w + x)) \<le> unat (d' ! nat (y * w + x)) \<and>
           (unat (d ! nat (y * w + x)) < nat m \<longrightarrow> d' ! nat (y * w + x) = d ! nat (y * w + x))"
proof -
  define c where "c = sample_point x y w h"
  define k where "k = escape_count c (nat m)"
  define k' where "k' = escape_count c (nat m')"
  have m': "0 \<le> m'" and m32: "m < 2 ^ 32"
    using assms(5,6,7) by simp_all
  have r: "calculateMandelbrotCPU L w h m = Some (Inr (escape_grid w h m))"
    using assms m32 by (intro calculateMandelbrotCPU_grid) simp_all
  have r': "calculateMandelbrotCPU L w h m' = Some (Inr (escape_grid w h m'))"
    using assms m' by (intro calculateMandelbrotCPU_grid) simp_all
  have e: "unat (escape_grid w h m ! nat (y * w + x)) = k"
    using assms(8-11) by (simp add: escape_grid_cell unat_cell_word [OF assms(5) m32] k_def c_def)
  have e': "unat (escape_grid w h m' ! nat (y * w + x)) = k'"
    using assms(8-11) by (simp add: escape_grid_cell unat_cell_word [OF m' assms(7)] k'_def c_def)
  have "nat m \<le> nat m'"
    using assms(6) by simp
  then have kk: "k = min k' (nat m)"
    unfolding k_def k'_def by (rule escape_count_min)
  have "escape_grid w h m' ! nat (y * w + x) = escape_grid w h m ! nat (y * w + x)"
    if "k < nat m"
  proof -
    from that kk have "k' = k"
      by (simp add: min_def split: if_splits)
    then have "unat (escape_grid w h m' ! nat (y * w + x)) = unat (escape_grid w h m ! nat (y * w + x))"
      by (simp only: e e')
    then show ?thesis
      by (simp only: word_unat_eq_iff)
  qed
  then show ?thesis
    using r r' e e' kk by (intro exI [of _ "escape_grid w h m"] exI [of _ "escape_grid w h m'"]) simp
qed

theorem escape_count_clamp_witness:
  "\<exists>d d'. calculateMandelbrotCPU 4 4 1 2 = Some (Inr d) \<and>
     calculateMandelbrotCPU 4 4 1 5 = Some (Inr d') \<and>
     unat (d ! nat (0 * 4 + 2)) = min (unat (d' ! nat (0 * 4 + 2))) (nat 2) \<and>
     unat (d ! nat (0 * 4 + 2)) \<le> unat (d' ! nat (0 * 4 + 2)) \<and>
     (unat (d ! nat (0 * 4 + 2)) < nat 2 \<longrightarrow> d' ! nat (0 * 4 + 2) = d ! nat (0 * 4 + 2))"
  by (rule escape_count_clamp) simp_all

theorem escape_count_clamp_counterexample:
  "calculateMandelbrotCPU (2 ^ 53 - 1) 4 1 2 = Some (Inr [1, 2, 2, 2]) \<and>
   calculateMandelbrotCPU (2 ^ 53 - 1) 4 1 (2 ^ 32 + 1) = Some (Inr [1, 3, 4, 1])"
proof -
  have "escape_count (- (5 / 4), - 1) 2 = min (escape_count (- (5 / 4), - 1) 3) 2"
    and "escape_count (- (5 / 8), - 1) 2 = min (escape_count (- (5 / 8), - 1) 4) 2"
    by (intro escape_count_min; simp)+
  then have "escape_count (- (5 / 4), - 1) 2 = 2" and "escape_count (- (5 / 8), - 1) 2 = 2"
    by (simp_all add: escape_count_cell1 escape_count_cell2)
  then show ?thesis
    using grid_4x1 [of 2] grid_4x1 [of "2 ^ 32 + 1"]
    by (simp add: escape_count_cell0 escape_count_cell1 escape_count_cell2 escape_count_cell3)
qed

section \<open>Sizes that are not positive\<close>

lemma for_y_no_columns:
  assumes "w \<le> 0" and "h \<le> 2 ^ 53" and "0 \<le> y"
  shows "for_y w h m y data = Some data"
  using assms(3)
proof (induction "nat (h - y)" arbitrary: y)
  case 0
  then show ?case
    by (simp add: for_y_done)
next
  case (Suc d)
  then have yh: "y < h"
    by simp
  then have "y < 2 ^ 53"
    using assms(2) by simp
  then have inc: "js_inc y = y + 1"
    using Suc.prems by (intro js_inc_exact) simp_all
  have "d = nat (h - (y + 1))" and "0 \<le> y + 1"
    using Suc.hyps(2) Suc.prems by simp_all
  from Suc.hyps(1) [OF this] have "for_y w h m (y + 1) data = Some data" .
  moreover have "for_x w h m y 0 data = Some data"
    using assms(1) by (simp add: for_x_done)
  ultimately show ?case
    using for_y_step [OF yh, of w m data data] inc by simp
qed

lemma for_y_stalls:
  assumes w: "w \<le> 0" and big: "2 ^ 53 < h"
  shows "for_y w h m 0 data = None"
proof (rule ccontr)
  assume "for_y w h m 0 data \<noteq> None"
  then obtain r where r: "for_y w h m 0 data = Some r"
    by auto
  let ?P = "\<lambda>w' h' (m'::int) (y::int) (d::u32 list) (r::u32 list).
    \<not> (w' = w \<and> h' = h \<and> 0 \<le> y \<and> y \<le> 2 ^ 53)"
  have "?P w h m 0 data r"
  proof (rule for_y.raw_induct [where P = ?P, OF _ r])
    fix f :: "int \<Rightarrow> int \<Rightarrow> int \<Rightarrow> int \<Rightarrow> u32 list \<Rightarrow> u32 list option"
    fix w' h' m' y :: int and d r' :: "u32 list"
    assume IH: "\<And>w' h' m' y d r'. f w' h' m' y d = Some r' \<Longrightarrow> ?P w' h' m' y d r'"
    assume eq: "(if y < h' then
        (case for_x w' h' m' y 0 d of None \<Rightarrow> None | Some data' \<Rightarrow> f w' h' m' (js_inc y) data')
        else Some d) = Some r'"
    show "?P w' h' m' y d r'"
    proof
      assume a: "w' = w \<and> h' = h \<and> 0 \<le> y \<and> y \<le> 2 ^ 53"
      then have yh: "y < h"
        using big by simp
      have "for_x w h m' y 0 d = Some d"
        using w by (simp add: for_x_done)
      with eq a yh have "f w h m' (js_inc y) d = Some r'"
        by simp
      from IH [OF this] have no: "\<not> (0 \<le> js_inc y \<and> js_inc y \<le> 2 ^ 53)"
        by simp
      have "0 \<le> js_inc y \<and> js_inc y \<le> 2 ^ 53"
      proof (cases "y < 2 ^ 53")
        case True
        then show ?thesis
          using a js_inc_exact [of y] by simp
      next
        case False
        with a have "y = 2 ^ 53"
          by simp
        then show ?thesis
          using js_inc_stalls_int by simp
      qed
      with no show False
        by simp
    qed
  qed
  then show False
    using w by simp
qed

lemma dispatchWorkgroups_none:
  "nx = 0 \<or> ny = 0 \<Longrightarrow> dispatchWorkgroups A params nx ny output = output"
proof -
  have "fold (\<lambda>gy out. fold (\<lambda>gx. kernel_main A params (of_nat gx, of_nat gy)) [] out) ys output =
      output" for ys
    by (induction ys) simp_all
  then show "nx = 0 \<or> ny = 0 \<Longrightarrow> dispatchWorkgroups A params nx ny output = output"
    by (auto simp: dispatchWorkgroups_def)
qed

text \<open>
  C5 (amended). Neither evaluator checks its parameters, and there is no
  \<^verbatim>\<open>InvalidParameters\<close> error. With \<open>width \<le> 0\<close> or \<open>height \<le> 0\<close> each path starts by
  allocating, as for any other input. The CPU implementation raises the \<^verbatim>\<open>RangeError\<close>
  of \<^verbatim>\<open>new Uint32Array\<close> when the product is negative or too large; otherwise it runs no
  cell and returns the array of zeros, except that with \<open>width = 0\<close> and
  \<open>height > 2 ^ 53\<close> the row loop never ends. The GPU branch fails when there is no
  device, raises the \<^verbatim>\<open>TypeError\<close> of \<^verbatim>\<open>createBuffer\<close> or \<^verbatim>\<open>dispatchWorkgroups\<close> when the byte
  size or a workgroup count is out of range, and otherwise, when the device accepts the
  commands, returns the buffer of zeros.
\<close>

theorem no_parameter_check:
  assumes "w \<le> 0 \<or> h \<le> 0"
  shows "calculateMandelbrotCPU L w h m =
           (if w * h < 0 \<or> 2 ^ 53 - 1 < w * h \<or> L < w * h then Some (Inl RangeError)
            else if 2 ^ 53 < h then None
            else Some (Inr (replicate (nat (w * h)) 0))) \<and>
         gpu_compute G w h m =
           (case unavailable G of
              Some e \<Rightarrow> Inl e
            | None \<Rightarrow>
                if w * h * 4 < 0 \<or> 2 ^ 53 - 1 < w * h * 4 \<or>
                   \<lceil>of_int w / (8 :: real)\<rceil> < 0 \<or> 2 ^ 32 - 1 < \<lceil>of_int w / (8 :: real)\<rceil> \<or>
                   \<lceil>of_int h / (8 :: real)\<rceil> < 0 \<or> 2 ^ 32 - 1 < \<lceil>of_int h / (8 :: real)\<rceil>
                then Inl TypeError
                else if accepts G (w * h * 4) \<lceil>of_int w / (8 :: real)\<rceil> \<lceil>of_int h / (8 :: real)\<rceil>
                then Inr (replicate (nat (w * h)) 0)
                else rejected G w h)"
proof
  show "calculateMandelbrotCPU L w h m =
      (if w * h < 0 \<or> 2 ^ 53 - 1 < w * h \<or> L < w * h then Some (Inl RangeError)
       else if 2 ^ 53 < h then None
       else Some (Inr (replicate (nat (w * h)) 0)))"
  proof (cases "w * h < 0 \<or> 2 ^ 53 - 1 < w * h \<or> L < w * h")
    case True
    then show ?thesis
      by (simp add: calculateMandelbrotCPU_def)
  next
    case alloc: False
    show ?thesis
    proof (cases "w \<le> 0")
      case w: True
      show ?thesis
      proof (cases "2 ^ 53 < h")
        case True
        then show ?thesis
          using alloc for_y_stalls [OF w True] by (simp add: calculateMandelbrotCPU_def)
      next
        case False
        then have "h \<le> 2 ^ 53"
          by simp
        from for_y_no_columns [OF w this, of 0] show ?thesis
          using alloc False by (simp add: calculateMandelbrotCPU_def)
      qed
    next
      case False
      with assms have h: "h \<le> 0"
        by simp
      then have "\<not> 0 < h" and "\<not> 2 ^ 53 < h"
        by simp_all
      then show ?thesis
        using alloc for_y_done [of 0 h w m] by (simp add: calculateMandelbrotCPU_def)
    qed
  qed
next
  define nx where "nx = \<lceil>of_int w / (8 :: real)\<rceil>"
  define ny where "ny = \<lceil>of_int h / (8 :: real)\<rceil>"
  have none: "nat nx = 0 \<or> nat ny = 0" if "0 \<le> w * h"
  proof -
    from that assms have "w \<le> 0 \<and> h \<le> 0 \<or> w = 0 \<or> h = 0"
      by (auto simp: zero_le_mult_iff)
    then have "w \<le> 0 \<or> h \<le> 0"
      by auto
    then have "of_int w / (8 :: real) \<le> 0 \<or> of_int h / (8 :: real) \<le> 0"
      by simp
    then have "nx \<le> 0 \<or> ny \<le> 0"
      unfolding nx_def ny_def by (simp add: ceiling_le_iff)
    then show ?thesis
      by auto
  qed
  show "gpu_compute G w h m =
      (case unavailable G of
         Some e \<Rightarrow> Inl e
       | None \<Rightarrow>
           if w * h * 4 < 0 \<or> 2 ^ 53 - 1 < w * h * 4 \<or>
              \<lceil>of_int w / (8 :: real)\<rceil> < 0 \<or> 2 ^ 32 - 1 < \<lceil>of_int w / (8 :: real)\<rceil> \<or>
              \<lceil>of_int h / (8 :: real)\<rceil> < 0 \<or> 2 ^ 32 - 1 < \<lceil>of_int h / (8 :: real)\<rceil>
           then Inl TypeError
           else if accepts G (w * h * 4) \<lceil>of_int w / (8 :: real)\<rceil> \<lceil>of_int h / (8 :: real)\<rceil>
           then Inr (replicate (nat (w * h)) 0)
           else rejected G w h)"
  proof (cases "0 \<le> w * h")
    case True
    from none [OF this] show ?thesis
      unfolding gpu_compute_def nx_def [symmetric] ny_def [symmetric] Let_def
      by (auto simp: dispatchWorkgroups_none split: option.split)
  next
    case False
    then have "w * h < 0"
      by simp
    then have "w * h * 4 < 0"
      by (simp add: mult.commute)
    then show ?thesis
      unfolding gpu_compute_def Let_def
      by (simp split: option.split)
  qed
qed

theorem no_parameter_check_witness:
  "calculateMandelbrotCPU 16 (- 2) (- 3) 255 = Some (Inr (replicate 6 0)) \<and>
   gpu_compute default_device (- 2) (- 3) 255 = Inr (replicate 6 0)"
  using no_parameter_check [of "- 2" "- 3" 16 255 default_device]
  by (simp add: default_device_def)

theorem no_parameter_check_counterexample:
  "calculateMandelbrotCPU 16 0 5 255 = Some (Inr []) \<and>
   calculateMandelbrotCPU 16 (- 2) 3 255 = Some (Inl RangeError) \<and>
   calculateMandelbrotCPU 16 0 (2 ^ 53 + 2) 255 = None \<and>
   gpu_compute default_device 0 5 255 = Inr [] \<and>
   gpu_compute default_device (- 2) 3 255 = Inl TypeError"
proof -
  have "for_y 0 5 255 0 data = Some data" for data
    by (rule for_y_no_columns) simp_all
  moreover have "for_y 0 (2 ^ 53 + 2) 255 0 data = None" for data
    by (rule for_y_stalls) simp_all
  moreover have "dispatchWorkgroups A params 0 ny [] = []" for A params ny
    by (simp add: dispatchWorkgroups_none)
  ultimately show ?thesis
    by (simp add: calculateMandelbrotCPU_def gpu_compute_def default_device_def)
qed

section \<open>The dispatch of the compute shader\<close>

lemma kernel_main_eq:
  "kernel_main A params (gx, gy) out =
     (if u32_of_f32 (width params) \<le> gx \<or> u32_of_f32 (height params) \<le> gy then out
      else if unat (gy * u32_of_f32 (width params) + gx) < length out
           then out[unat (gy * u32_of_f32 (width params) + gx) := kernel_cell A params gx gy]
           else out)"
  by (simp add: kernel_main_def kernel_cell_def Let_def)

lemma unat_of_nat_u32: "n < 2 ^ 32 \<Longrightarrow> unat (of_nat n :: u32) = n"
  by (simp add: unat_of_nat)

lemma kernel_main_nat:
  assumes W: "u32_of_f32 (width params) = of_nat W" and H: "u32_of_f32 (height params) = of_nat H"
    and W32: "W < 2 ^ 32" and H32: "H < 2 ^ 32"
    and HW: "H * W \<le> 2 ^ 32" and gx: "gx < 2 ^ 32" and gy: "gy < 2 ^ 32"
  shows "kernel_main A params (of_nat gx, of_nat gy) out =
     (if gx < W \<and> gy < H \<and> gy * W + gx < length out
      then out[gy * W + gx := kernel_cell A params (of_nat gx) (of_nat gy)] else out)"
proof -
  have c1: "((of_nat W :: u32) \<le> of_nat gx) = (W \<le> gx)"
    using W32 gx by (simp add: word_le_nat_alt unat_of_nat_u32)
  have c2: "((of_nat H :: u32) \<le> of_nat gy) = (H \<le> gy)"
    using H32 gy by (simp add: word_le_nat_alt unat_of_nat_u32)
  have idx: "unat ((of_nat gy :: u32) * of_nat W + of_nat gx) = gy * W + gx"
    if "gx < W" and "gy < H"
  proof -
    have "Suc gy * W \<le> H * W"
      using that(2) by (intro mult_le_mono1) simp
    then have "gy * W + gx < 2 ^ 32"
      using that(1) HW by simp
    moreover have "(of_nat gy :: u32) * of_nat W + of_nat gx = of_nat (gy * W + gx)"
      by simp
    ultimately show ?thesis
      by (simp only: unat_of_nat_u32)
  qed
  show ?thesis
    unfolding kernel_main_eq W H c1 c2
    using idx by (auto simp: not_le)
qed


lemma kernel_row:
  assumes W: "u32_of_f32 (width params) = of_nat W" and H: "u32_of_f32 (height params) = of_nat H"
    and W32: "W < 2 ^ 32" and H32: "H < 2 ^ 32"
    and HW: "H * W \<le> 2 ^ 32" and gy: "gy < 2 ^ 32" and n: "n \<le> 2 ^ 32"
  shows "length (fold (\<lambda>gx. kernel_main A params (of_nat gx, of_nat gy)) [0..<n] out) = length out \<and>
         (\<forall>k<length out.
            fold (\<lambda>gx. kernel_main A params (of_nat gx, of_nat gy)) [0..<n] out ! k =
              (if gy < H \<and> gy * W \<le> k \<and> k < gy * W + min n W
               then kernel_cell A params (of_nat (k - gy * W)) (of_nat gy) else out ! k))"
  using n
proof (induction n)
  case 0
  show ?case
    by auto
next
  case (Suc n)
  define row where "row = fold (\<lambda>gx. kernel_main A params (of_nat gx, of_nat gy)) [0..<n] out"
  have n32: "n < 2 ^ 32" and "n \<le> 2 ^ 32"
    using Suc.prems by simp_all
  from Suc.IH [OF this(2)] have len: "length row = length out" and
    nth: "\<And>k. k < length out \<Longrightarrow> row ! k =
      (if gy < H \<and> gy * W \<le> k \<and> k < gy * W + min n W
       then kernel_cell A params (of_nat (k - gy * W)) (of_nat gy) else out ! k)"
    by (simp_all add: row_def)
  have step: "fold (\<lambda>gx. kernel_main A params (of_nat gx, of_nat gy)) [0..<Suc n] out =
      (if n < W \<and> gy < H \<and> gy * W + n < length row
       then row[gy * W + n := kernel_cell A params (of_nat n) (of_nat gy)] else row)"
    using kernel_main_nat [OF W H W32 H32 HW n32 gy, of A row] by (simp add: row_def)
  show ?case
  proof (cases "n < W \<and> gy < H")
    case False
    then have s: "fold (\<lambda>gx. kernel_main A params (of_nat gx, of_nat gy)) [0..<Suc n] out = row"
      using step by auto
    have c: "(gy < H \<and> gy * W \<le> k \<and> k < gy * W + min (Suc n) W) =
        (gy < H \<and> gy * W \<le> k \<and> k < gy * W + min n W)" for k
      using False by auto
    show ?thesis
      unfolding s c using len nth by simp
  next
    case True
    then have m: "min (Suc n) W = Suc n" "min n W = n"
      by simp_all
    from True have s: "fold (\<lambda>gx. kernel_main A params (of_nat gx, of_nat gy)) [0..<Suc n] out =
        (if gy * W + n < length row
         then row[gy * W + n := kernel_cell A params (of_nat n) (of_nat gy)] else row)"
      using step by auto
    have "(if gy * W + n < length row
           then row[gy * W + n := kernel_cell A params (of_nat n) (of_nat gy)] else row) ! k =
        (if gy < H \<and> gy * W \<le> k \<and> k < gy * W + Suc n
         then kernel_cell A params (of_nat (k - gy * W)) (of_nat gy) else out ! k)"
      if k: "k < length out" for k
    proof (cases "k = gy * W + n")
      case eq: True
      then show ?thesis
        using k len True by simp
    next
      case False
      then have "(if gy * W + n < length row
           then row[gy * W + n := kernel_cell A params (of_nat n) (of_nat gy)] else row) ! k = row ! k"
        by simp
      also have "\<dots> = (if gy < H \<and> gy * W \<le> k \<and> k < gy * W + n
           then kernel_cell A params (of_nat (k - gy * W)) (of_nat gy) else out ! k)"
        using nth [OF k] m by simp
      also have "\<dots> = (if gy < H \<and> gy * W \<le> k \<and> k < gy * W + Suc n
           then kernel_cell A params (of_nat (k - gy * W)) (of_nat gy) else out ! k)"
        using False by (auto simp: less_Suc_eq)
      finally show ?thesis .
    qed
    then show ?thesis
      unfolding s m using len by simp
  qed
qed

lemma kernel_rows:
  assumes W: "u32_of_f32 (width params) = of_nat W" and H: "u32_of_f32 (height params) = of_nat H"
    and W32: "W < 2 ^ 32" and H32: "H < 2 ^ 32"
    and HW: "H * W \<le> 2 ^ 32" and n: "n \<le> 2 ^ 32" and Wn: "W \<le> n" and ny: "ny \<le> 2 ^ 32"
  shows "length (fold (\<lambda>gy out. fold (\<lambda>gx. kernel_main A params (of_nat gx, of_nat gy)) [0..<n] out)
                   [0..<ny] out) = length out \<and>
         (\<forall>k<length out.
            fold (\<lambda>gy out. fold (\<lambda>gx. kernel_main A params (of_nat gx, of_nat gy)) [0..<n] out)
              [0..<ny] out ! k =
              (if k < min ny H * W
               then kernel_cell A params (of_nat (k mod W)) (of_nat (k div W)) else out ! k))"
  using ny
proof (induction ny)
  case 0
  show ?case
    by simp
next
  case (Suc ny)
  define rows where
    "rows = fold (\<lambda>gy out. fold (\<lambda>gx. kernel_main A params (of_nat gx, of_nat gy)) [0..<n] out)
              [0..<ny] out"
  have ny32: "ny < 2 ^ 32" and "ny \<le> 2 ^ 32"
    using Suc.prems by simp_all
  from Suc.IH [OF this(2)] have len: "length rows = length out" and
    nth: "\<And>k. k < length out \<Longrightarrow> rows ! k =
      (if k < min ny H * W
       then kernel_cell A params (of_nat (k mod W)) (of_nat (k div W)) else out ! k)"
    by (simp_all add: rows_def)
  define row where "row = fold (\<lambda>gx. kernel_main A params (of_nat gx, of_nat ny)) [0..<n] rows"
  have mn: "min n W = W"
    using Wn by simp
  from kernel_row [OF W H W32 H32 HW ny32 n, of A rows]
  have len': "length row = length out" and
    nth': "\<And>k. k < length out \<Longrightarrow> row ! k =
      (if ny < H \<and> ny * W \<le> k \<and> k < ny * W + W
       then kernel_cell A params (of_nat (k - ny * W)) (of_nat ny) else rows ! k)"
    by (simp_all add: row_def len mn)
  have unfold: "fold (\<lambda>gy out. fold (\<lambda>gx. kernel_main A params (of_nat gx, of_nat gy)) [0..<n] out)
      [0..<Suc ny] out = row"
    by (simp add: row_def rows_def)
  have "row ! k =
      (if k < min (Suc ny) H * W
       then kernel_cell A params (of_nat (k mod W)) (of_nat (k div W)) else out ! k)"
    if k: "k < length out" for k
  proof (cases "ny < H")
    case False
    then have "min (Suc ny) H = min ny H"
      by simp
    then show ?thesis
      using False nth' [OF k] nth [OF k] by simp
  next
    case True
    then have m: "min (Suc ny) H = Suc ny" "min ny H = ny"
      by simp_all
    show ?thesis
    proof (cases "ny * W \<le> k \<and> k < ny * W + W")
      case inrow: True
      then have dv: "k div W = ny"
        by (intro div_nat_eqI) (simp_all add: algebra_simps)
      then have "k mod W = k - ny * W"
        by (simp add: modulo_nat_def)
      with dv show ?thesis
        using inrow True nth' [OF k] m by simp
    next
      case False
      then show ?thesis
        using True nth' [OF k] nth [OF k] m by auto
    qed
  qed
  then show ?case
    using len' unfolding unfold by simp
qed

lemma dispatchWorkgroups_grid:
  assumes W: "u32_of_f32 (width params) = of_nat W" and H: "u32_of_f32 (height params) = of_nat H"
    and W32: "W < 2 ^ 32" and H32: "H < 2 ^ 32" and HW: "H * W \<le> 2 ^ 32"
    and nx: "W \<le> 8 * nx" "8 * nx \<le> 2 ^ 32" and ny: "H \<le> 8 * ny" "8 * ny \<le> 2 ^ 32"
    and len: "length out = H * W"
  shows "dispatchWorkgroups A params nx ny out =
         map (\<lambda>k. kernel_cell A params (of_nat (k mod W)) (of_nat (k div W))) [0..<H * W]"
proof (rule nth_equalityI)
  from kernel_rows [OF W H W32 H32 HW nx(2,1) ny(2), of A out]
  have l: "length (dispatchWorkgroups A params nx ny out) = length out" and
    n: "\<And>k. k < length out \<Longrightarrow> dispatchWorkgroups A params nx ny out ! k =
      (if k < min (8 * ny) H * W
       then kernel_cell A params (of_nat (k mod W)) (of_nat (k div W)) else out ! k)"
    by (simp_all add: dispatchWorkgroups_def)
  show "length (dispatchWorkgroups A params nx ny out) =
      length (map (\<lambda>k. kernel_cell A params (of_nat (k mod W)) (of_nat (k div W))) [0..<H * W])"
    using l len by simp
  fix k
  assume "k < length (dispatchWorkgroups A params nx ny out)"
  then have k: "k < H * W"
    using l len by simp
  have "min (8 * ny) H = H"
    using ny(1) by simp
  then show "dispatchWorkgroups A params nx ny out ! k =
      map (\<lambda>k. kernel_cell A params (of_nat (k mod W)) (of_nat (k div W))) [0..<H * W] ! k"
    using n [of k] k len by simp
qed


lemma f32_of_int: "\<bar>n\<bar> \<le> 2 ^ 24 \<Longrightarrow> f32 (of_int n) = of_int n"
  by (simp add: f32_def fl_of_int_small)

lemma u32_of_f32_of_int: "0 \<le> n \<Longrightarrow> n \<le> 2 ^ 24 \<Longrightarrow> u32_of_f32 (f32 (of_int n)) = of_nat (nat n)"
proof -
  assume n: "0 \<le> n" "n \<le> 2 ^ 24"
  then have "f32 (of_int n) = of_int n"
    by (intro f32_of_int) simp
  moreover have "\<not> (2 ^ 32 - 1 \<le> (of_int n :: real))"
  proof -
    have "n < 2 ^ 32 - 1"
      using n(2) by simp
    then have "(of_int n :: real) < of_int (2 ^ 32 - 1)"
      by (simp only: of_int_less_iff)
    then show ?thesis
      by simp
  qed
  ultimately show ?thesis
    using n(1) by (auto simp: u32_of_f32_def)
qed

lemma workgroups:
  assumes "0 < w" and "w \<le> 2 ^ 24"
  shows "0 \<le> \<lceil>of_int w / (8 :: real)\<rceil>" and "\<lceil>of_int w / (8 :: real)\<rceil> \<le> 2 ^ 21"
    and "nat w \<le> 8 * nat \<lceil>of_int w / (8 :: real)\<rceil>"
    and "8 * nat \<lceil>of_int w / (8 :: real)\<rceil> \<le> 2 ^ 32"
proof -
  define c where "c = \<lceil>of_int w / (8 :: real)\<rceil>"
  have "(0 :: real) \<le> of_int w / 8"
    using assms(1) by simp
  then show c0: "0 \<le> \<lceil>of_int w / (8 :: real)\<rceil>"
    by (simp add: ceiling_le_iff le_ceiling_iff)
  have "of_int w / (8 :: real) \<le> of_int (2 ^ 21)"
    using assms(2) by simp
  then show c21: "\<lceil>of_int w / (8 :: real)\<rceil> \<le> 2 ^ 21"
    by (simp only: ceiling_le_iff)
  have "of_int w / (8 :: real) \<le> of_int c"
    unfolding c_def by (rule le_of_int_ceiling)
  then have "of_int w \<le> (of_int (8 * c) :: real)"
    by simp
  then have "w \<le> 8 * c"
    by (simp only: of_int_le_iff)
  then show "nat w \<le> 8 * nat \<lceil>of_int w / (8 :: real)\<rceil>"
    using c0 unfolding c_def by linarith
  have "nat \<lceil>of_int w / (8 :: real)\<rceil> \<le> nat (2 ^ 21)"
    using c21 by (rule nat_mono)
  then show "8 * nat \<lceil>of_int w / (8 :: real)\<rceil> \<le> 2 ^ 32"
    by simp
qed



section \<open>The cap zero\<close>

lemma kernel_while_zero_cap: "kernel_while A cx cy 0 zx zy i = i"
  by (subst kernel_while.simps) simp

lemma u32_of_f32_zero: "u32_of_f32 (f32 0) = 0"
  by (simp add: u32_of_f32_def f32_def fl_def)

lemma kernel_cell_zero_cap: "u32_of_f32 (max_iter params) = 0 \<Longrightarrow> kernel_cell A params gx gy = 0"
  by (simp add: kernel_cell_def kernel_while_zero_cap)

lemma kernel_main_zero_cap:
  assumes "u32_of_f32 (max_iter params) = 0"
  shows "kernel_main A params gid (replicate n 0) = replicate n 0"
proof -
  have "(replicate n (0::u32))[k := 0] = replicate n 0" for k
    by (metis length_replicate list_update_beyond list_update_id not_le nth_replicate)
  then show ?thesis
    using assms by (cases gid) (simp add: kernel_main_eq kernel_cell_zero_cap)
qed

lemma dispatchWorkgroups_zero_cap:
  assumes "u32_of_f32 (max_iter params) = 0"
  shows "dispatchWorkgroups A params nx ny (replicate n 0) = replicate n 0"
proof -
  have row: "fold (\<lambda>gx. kernel_main A params (of_nat gx, of_nat gy)) xs (replicate n 0) =
      replicate n 0" for gy :: nat and xs
    by (induction xs) (simp_all add: kernel_main_zero_cap [OF assms])
  have "fold (\<lambda>gy out. fold (\<lambda>gx. kernel_main A params (of_nat gx, of_nat gy)) [0..<8 * nx] out)
      ys (replicate n 0) = replicate n 0" for ys
    by (induction ys) (simp_all add: row)
  then show ?thesis
    by (simp add: dispatchWorkgroups_def)
qed

lemma cell_word_zero_cap: "cell_word w h 0 x y = 0"
  using escape_count_props(1) [of "sample_point x y w h" 0] by (simp add: cell_word_def)

lemma escape_grid_zero_cap: "escape_grid w h 0 = replicate (nat (w * h)) 0"
  by (simp add: escape_grid_def cell_word_zero_cap map_replicate_const)

lemma for_y_zero_cap:
  assumes "0 < w" and "0 < h" and "w * h \<le> 2 ^ 53" and "length data = nat (w * h)"
  shows "for_y w h 0 0 data = Some (replicate (nat (w * h)) 0)"
proof -
  have "(0::int) \<le> 0" and "(0::int) \<le> 2 ^ 53" and "h * w \<le> 2 ^ 53"
    using assms(3) by (simp_all add: mult.commute)
  from for_y_result [OF this(1,2) assms(1) this(3) this(1), of data] obtain data' where
    d: "for_y w h 0 0 data = Some data'" "length data' = length data"
      "\<forall>k<length data. data' ! k =
         (if 0 * w \<le> int k \<and> int k < h * w
          then cell_word w h 0 (int k mod w) (int k div w) else data ! k)"
    by blast
  have "data' = replicate (nat (w * h)) 0"
  proof (rule nth_equalityI)
    show "length data' = length (replicate (nat (w * h)) (0::u32))"
      using d(2) assms(4) by simp
    fix k
    assume "k < length data'"
    then have k: "k < nat (w * h)"
      using d(2) assms(4) by simp
    then have "int k < h * w"
      by (simp add: mult.commute)
    then have "data' ! k = 0"
      using d(3) k assms(4) by (simp add: cell_word_zero_cap)
    then show "data' ! k = replicate (nat (w * h)) 0 ! k"
      using k by simp
  qed
  with d(1) show ?thesis
    by simp
qed

lemma gpu_compute_zero_cap:
  assumes "unavailable G = None" and "0 \<le> w * h" and "w * h * 4 \<le> 2 ^ 53 - 1"
    and "0 \<le> \<lceil>of_int w / (8 :: real)\<rceil>" and "\<lceil>of_int w / (8 :: real)\<rceil> \<le> 2 ^ 32 - 1"
    and "0 \<le> \<lceil>of_int h / (8 :: real)\<rceil>" and "\<lceil>of_int h / (8 :: real)\<rceil> \<le> 2 ^ 32 - 1"
    and "accepts G (w * h * 4) \<lceil>of_int w / (8 :: real)\<rceil> \<lceil>of_int h / (8 :: real)\<rceil>"
  shows "gpu_compute G w h 0 = Inr (replicate (nat (w * h)) 0)"
proof -
  have "0 \<le> w * h * 4"
    using assms(2) by simp
  then have "\<not> (w * h * 4 < 0 \<or> 2 ^ 53 - 1 < w * h * 4)"
    using assms(3) by (simp only: not_less de_Morgan_disj simp_thms)
  moreover have "\<not> (\<lceil>of_int w / (8 :: real)\<rceil> < 0 \<or> 2 ^ 32 - 1 < \<lceil>of_int w / (8 :: real)\<rceil> \<or>
              \<lceil>of_int h / (8 :: real)\<rceil> < 0 \<or> 2 ^ 32 - 1 < \<lceil>of_int h / (8 :: real)\<rceil>)"
    using assms(4-7) by (simp add: not_less)
  ultimately show ?thesis
    unfolding gpu_compute_def Let_def
    using assms(1,8) by (simp add: dispatchWorkgroups_zero_cap u32_of_f32_zero)
qed

lemma ceiling_eighth_nonneg: "0 < w \<Longrightarrow> 0 \<le> \<lceil>of_int w / (8 :: real)\<rceil>"
proof -
  assume "0 < w"
  then have "(0 :: real) \<le> of_int w / 8"
    by simp
  then show ?thesis
    by (simp add: ceiling_le_iff le_ceiling_iff)
qed

text \<open>
  C8 (amended). With \<open>width > 0\<close>, \<open>height > 0\<close> and the cap \<open>0\<close>, every cell is \<open>0\<close> on
  each path that produces an array: the CPU implementation returns \<open>width * height\<close>
  zeros when the array can be allocated, and the GPU branch returns \<open>width * height\<close>
  zeros, whatever the arithmetic of the device, when a device is available, the sizes
  are in the range of the API and the device accepts them. The zeros are written: the
  loops of the CPU implementation turn any array of that length into zeros, and for
  sides of at most \<open>2 ^ 24\<close> with at most \<open>2 ^ 32\<close> cells the dispatch turns any buffer of
  that length into zeros.
\<close>

theorem zero_cap:
  assumes "0 < w" and "0 < h"
  shows "(w * h \<le> 2 ^ 53 - 1 \<and> w * h \<le> L \<longrightarrow>
            calculateMandelbrotCPU L w h 0 = Some (Inr (replicate (nat (w * h)) 0))) \<and>
         (w * h \<le> 2 ^ 53 \<and> length data = nat (w * h) \<longrightarrow>
            for_y w h 0 0 data = Some (replicate (nat (w * h)) 0)) \<and>
         (unavailable G = None \<and> w * h * 4 \<le> 2 ^ 53 - 1 \<and>
          \<lceil>of_int w / (8 :: real)\<rceil> \<le> 2 ^ 32 - 1 \<and> \<lceil>of_int h / (8 :: real)\<rceil> \<le> 2 ^ 32 - 1 \<and>
          accepts G (w * h * 4) \<lceil>of_int w / (8 :: real)\<rceil> \<lceil>of_int h / (8 :: real)\<rceil> \<longrightarrow>
            gpu_compute G w h 0 = Inr (replicate (nat (w * h)) 0)) \<and>
         (w \<le> 2 ^ 24 \<and> h \<le> 2 ^ 24 \<and> w * h \<le> 2 ^ 32 \<and> length out = nat (w * h) \<longrightarrow>
            dispatchWorkgroups A
              \<lparr>width = f32 (of_int w), height = f32 (of_int h), max_iter = f32 (of_int 0)\<rparr>
              (nat \<lceil>of_int w / (8 :: real)\<rceil>) (nat \<lceil>of_int h / (8 :: real)\<rceil>) out =
            replicate (nat (w * h)) 0)"
proof (intro conjI impI)
  assume a: "w * h \<le> 2 ^ 53 - 1 \<and> w * h \<le> L"
  then have "calculateMandelbrotCPU L w h 0 = Some (Inr (escape_grid w h 0))"
    using assms by (intro calculateMandelbrotCPU_grid) simp_all
  then show "calculateMandelbrotCPU L w h 0 = Some (Inr (replicate (nat (w * h)) 0))"
    by (simp only: escape_grid_zero_cap)
next
  assume "w * h \<le> 2 ^ 53 \<and> length data = nat (w * h)"
  then show "for_y w h 0 0 data = Some (replicate (nat (w * h)) 0)"
    using assms by (intro for_y_zero_cap) simp_all
next
  assume a: "unavailable G = None \<and> w * h * 4 \<le> 2 ^ 53 - 1 \<and>
    \<lceil>of_int w / (8 :: real)\<rceil> \<le> 2 ^ 32 - 1 \<and> \<lceil>of_int h / (8 :: real)\<rceil> \<le> 2 ^ 32 - 1 \<and>
    accepts G (w * h * 4) \<lceil>of_int w / (8 :: real)\<rceil> \<lceil>of_int h / (8 :: real)\<rceil>"
  have "0 \<le> w * h"
    using assms by simp
  then show "gpu_compute G w h 0 = Inr (replicate (nat (w * h)) 0)"
    using a ceiling_eighth_nonneg [OF assms(1)] ceiling_eighth_nonneg [OF assms(2)]
    by (intro gpu_compute_zero_cap) simp_all
next
  assume a: "w \<le> 2 ^ 24 \<and> h \<le> 2 ^ 24 \<and> w * h \<le> 2 ^ 32 \<and> length out = nat (w * h)"
  define params where
    "params = \<lparr>width = f32 (of_int w), height = f32 (of_int h), max_iter = f32 (of_int 0)\<rparr>"
  have W: "u32_of_f32 (width params) = of_nat (nat w)"
    using assms(1) a by (simp add: params_def u32_of_f32_of_int)
  have H: "u32_of_f32 (height params) = of_nat (nat h)"
    using assms(2) a by (simp add: params_def u32_of_f32_of_int)
  have cap: "u32_of_f32 (max_iter params) = 0"
    by (simp add: params_def u32_of_f32_zero)
  have w24: "w \<le> 2 ^ 24" and h24: "h \<le> 2 ^ 24"
    using a by simp_all
  have W32: "nat w < 2 ^ 32" and H32: "nat h < 2 ^ 32"
    using w24 h24 by simp_all
  have nn: "nat h * nat w = nat (w * h)"
    using assms by (simp add: nat_mult_distrib mult.commute)
  have wh: "w * h \<le> 2 ^ 32"
    using a by simp
  have HW: "nat h * nat w \<le> 2 ^ 32"
    unfolding nn using wh by simp
  have len: "length out = nat h * nat w"
    using a by (simp add: nn)
  note nx = workgroups [OF assms(1) w24]
  note ny = workgroups [OF assms(2) h24]
  have "dispatchWorkgroups A params
      (nat \<lceil>of_int w / (8 :: real)\<rceil>) (nat \<lceil>of_int h / (8 :: real)\<rceil>) out =
      map (\<lambda>k. kernel_cell A params (of_nat (k mod nat w)) (of_nat (k div nat w)))
        [0..<nat h * nat w]"
    by (rule dispatchWorkgroups_grid [OF W H W32 H32 HW nx(3,4) ny(3,4) len])
  also have "\<dots> = replicate (nat (w * h)) 0"
    by (simp add: kernel_cell_zero_cap [OF cap] map_replicate_const nn)
  finally show "dispatchWorkgroups A
      \<lparr>width = f32 (of_int w), height = f32 (of_int h), max_iter = f32 (of_int 0)\<rparr>
      (nat \<lceil>of_int w / (8 :: real)\<rceil>) (nat \<lceil>of_int h / (8 :: real)\<rceil>) out =
      replicate (nat (w * h)) 0"
    by (simp only: params_def)
qed

theorem zero_cap_witness:
  "calculateMandelbrotCPU 64 8 8 0 = Some (Inr (replicate 64 0)) \<and>
   for_y 8 8 0 0 (replicate 64 7) = Some (replicate 64 0) \<and>
   gpu_compute default_device 8 8 0 = Inr (replicate 64 0) \<and>
   dispatchWorkgroups ieee_f32 \<lparr>width = f32 8, height = f32 8, max_iter = f32 0\<rparr> 1 1
     (replicate 64 7) = replicate 64 0"
  using zero_cap [of 8 8 64 "replicate 64 7" default_device "replicate 64 7" ieee_f32]
  by (simp add: default_device_def)

theorem zero_cap_counterexample:
  "calculateMandelbrotCPU (2 ^ 53 - 1) (2 ^ 27) (2 ^ 27) 0 = Some (Inl RangeError) \<and>
   gpu_compute default_device (2 ^ 27) (2 ^ 27) 0 = Inl TypeError"
  by (simp add: calculateMandelbrotCPU_def gpu_compute_def default_device_def)

section \<open>The two implementations compared\<close>















end
